theory Spec2Isabelle
  imports Main "HOL-Library.AList" "HOL-Library.Sublist"
begin

section \<open>JavaScript values, errors and the collaborators of the watcher\<close>

text \<open>
  The values that reach the watcher as paths, files, owners and triggers.  Strings are
  compared by content, objects (\<open>JObj n\<close>: any object, array, Buffer or URL) by their
  identity \<open>n\<close>, which is how the keys of a \<open>SafeMap\<close> and the members of a
  \<open>SafeSet\<close> are compared.  Numbers are integers here (no NaN, no fractions).
\<close>

datatype jsval = JUndefined | JNull | JBool bool | JNum int | JStr string | JObj nat

text \<open>The truthiness test of \<open>!file\<close> and \<open>if (owner)\<close>.\<close>

fun truthy :: "jsval \<Rightarrow> bool" where
  "truthy JUndefined = False"
| "truthy JNull = False"
| "truthy (JBool b) = b"
| "truthy (JNum n) = (n \<noteq> 0)"
| "truthy (JStr s) = (s \<noteq> [])"
| "truthy (JObj n) = True"

datatype error =
    TypeError
  | ERR_INVALID_ARG_TYPE
  | ERR_INVALID_ARG_VALUE
  | ERR_OUT_OF_RANGE
  | ERR_INVALID_URL
  | FsError

text \<open>
  What the file requires from other modules is a parameter of the model: the platform
  flag \<open>supportsRecursiveWatching\<close>, whether \<open>process.send\<close> exists, \<open>TIMEOUT_MAX\<close>,
  \<open>path.dirname\<close>, \<open>url.fileURLToPath\<close>, whether \<open>fs.watch\<close> throws on a path
  (\<open>Some e\<close>) or returns a handle (\<open>None\<close>), and what \<open>String.prototype.startsWith\<close>
  does when one of its two arguments is not a string (it coerces, or throws).
\<close>

record env =
  supportsRecursiveWatching :: bool
  process_send :: bool
  timeout_max :: int
  dirname :: "jsval \<Rightarrow> error + jsval"
  fileURLToPath :: "jsval \<Rightarrow> error + jsval"
  fs_watch :: "jsval \<Rightarrow> bool \<Rightarrow> error option"
  startsWith_coerced :: "jsval \<Rightarrow> jsval \<Rightarrow> error + bool"

text \<open>\<open>StringPrototypeStartsWith(s, p)\<close>: on two strings, whether \<open>p\<close> is a prefix of \<open>s\<close>.\<close>

fun js_startsWith :: "env \<Rightarrow> jsval \<Rightarrow> jsval \<Rightarrow> error + bool" where
  "js_startsWith env (JStr s) (JStr p) = Inr (prefix p s)"
| "js_startsWith env a b = startsWith_coerced env a b"

section \<open>SafeSet and SafeMap\<close>

text \<open>
  A \<open>SafeSet\<close> is the list of its members in insertion order, without duplicates; a
  \<open>SafeMap\<close> is the list of its entries in insertion order (\<open>map_of\<close> is \<open>get\<close>,
  \<open>AList.update\<close> is \<open>set\<close>: it overwrites in place or appends, \<open>AList.delete\<close> is
  \<open>delete\<close>).
\<close>

definition set_has :: "'a \<Rightarrow> 'a list \<Rightarrow> bool" where
  "set_has x xs = (x \<in> set xs)"

definition set_add :: "'a \<Rightarrow> 'a list \<Rightarrow> 'a list" where
  "set_add x xs = (if x \<in> set xs then xs else xs @ [x])"

definition set_delete :: "'a \<Rightarrow> 'a list \<Rightarrow> 'a list" where
  "set_delete x xs = removeAll x xs"

definition map_has :: "'k \<Rightarrow> ('k \<times> 'v) list \<Rightarrow> bool" where
  "map_has k m = (map_of m k \<noteq> None)"

section \<open>The state of a FilesWatcher and of the objects it touches\<close>

datatype mode = Filter | All

text \<open>A value of \<open>#watchers\<close>: \<open>{ handle, recursive }\<close>; the handle is the index of the
  FSWatcher object in \<open>fs_handles\<close>.\<close>

record watcher =
  handle :: nat
  recursive :: bool

text \<open>An FSWatcher object: whether it still has its \<open>change\<close> listener, and whether
  \<open>close()\<close> was called.\<close>

record fswatcher =
  listening :: bool
  closed :: bool

text \<open>
  A \<open>changed\<close> event as emitted: the payload is \<open>owners\<close> (\<open>None\<close> is
  \<open>undefined\<close>; otherwise the members of the set at the time of the emission).  The
  time and the trigger of the emission are recorded beside it, to state the properties
  of the throttle.  The listeners of \<open>changed\<close> are outside the class: \<open>emit\<close> returns
  normally.
\<close>

record changed_event =
  ev_time :: nat
  ev_trigger :: jsval
  ev_owners :: "jsval list option"

text \<open>
  The closures registered as \<open>message\<close> listeners: the two forwarders made by
  \<open>#setupIPC\<close> and the handler made by \<open>watchChildProcessModules\<close>, which captures
  \<open>key\<close>.  Every closure has an identity (a number), since \<open>off\<close> removes by identity.
\<close>

datatype listener = ParentToChild nat | ChildToParent | ModuleReports jsval

text \<open>A child process object: its \<open>_ipcMessages\<close> property (\<open>None\<close> is \<open>undefined\<close>;
  otherwise the identities of \<open>parentToChild\<close> and \<open>childToParent\<close>) and its
  \<open>message\<close> listeners.\<close>

record child =
  ipcMessages :: "(nat \<times> nat) option"
  message_listeners :: "(nat \<times> listener) list"

datatype upstream_message = WatchRestarted

text \<open>
  The private fields of the class, then the objects outside it that its methods change.
  \<open>#depencencyOwners\<close> maps a file to its set of owners; each of these sets is only
  ever reached through its one key, so the set is stored in the map.  The sets of
  \<open>#ownerDependencies\<close> can be shared between keys (\<open>filterFile\<close> looks the set up
  under \<open>file\<close> and stores it under \<open>owner\<close>), so that map holds addresses into
  \<open>dep_sets\<close>, the store of these set objects.
\<close>

record state =
  watchers :: "(jsval \<times> watcher) list"
  filteredFiles :: "jsval list"
  throttling :: "jsval list"
  depencencyOwners :: "(jsval \<times> jsval list) list"
  ownerDependencies :: "(jsval \<times> nat) list"
  dep_sets :: "jsval list list"
  throttle :: nat
  mode :: mode
  wantsPassthroughIPC :: bool
  fs_handles :: "fswatcher list"
  emitted :: "changed_event list"
  timers :: "(nat \<times> jsval) list"
  clock :: nat
  upstream :: "upstream_message list"
  process_listeners :: "(nat \<times> listener) list"
  children :: "(nat \<times> child) list"
  next_closure :: nat

text \<open>The set object at an address.  Every address stored by the methods below is in
  range; an address out of range reads as the empty set.\<close>

definition deref :: "jsval list list \<Rightarrow> nat \<Rightarrow> jsval list" where
  "deref h a = (if a < length h then h ! a else [])"

text \<open>\<open>OwnerToFiles[owner]\<close> and \<open>FileToOwners[file]\<close> of the specification, with the
  empty set for a missing key.\<close>

definition owner_files :: "state \<Rightarrow> jsval \<Rightarrow> jsval list" where
  "owner_files s ownr =
     (case map_of (ownerDependencies s) ownr of None \<Rightarrow> [] | Some a \<Rightarrow> deref (dep_sets s) a)"

definition file_owners :: "state \<Rightarrow> jsval \<Rightarrow> jsval list" where
  "file_owners s file =
     (case map_of (depencencyOwners s) file of None \<Rightarrow> [] | Some os \<Rightarrow> os)"

text \<open>A child object that no method has touched yet has no \<open>_ipcMessages\<close> and no
  listeners.\<close>

definition get_child :: "state \<Rightarrow> nat \<Rightarrow> child" where
  "get_child s c =
     (case map_of (children s) c of
        None \<Rightarrow> \<lparr>ipcMessages = None, message_listeners = []\<rparr>
      | Some ch \<Rightarrow> ch)"

section \<open>The constructor\<close>

definition initial :: "env \<Rightarrow> nat \<Rightarrow> mode \<Rightarrow> state" where
  "initial env t m =
     \<lparr>watchers = [], filteredFiles = [], throttling = [], depencencyOwners = [],
      ownerDependencies = [], dep_sets = [], throttle = t, mode = m,
      wantsPassthroughIPC = process_send env, fs_handles = [], emitted = [], timers = [],
      clock = 0, upstream = [], process_listeners = [], children = [], next_closure = 0\<rparr>"

definition FilesWatcher_new :: "env \<Rightarrow> int \<Rightarrow> string \<Rightarrow> error + state" where
  "FilesWatcher_new env throttle_arg mode_arg =
     (if throttle_arg < 0 \<or> timeout_max env < throttle_arg then Inl ERR_OUT_OF_RANGE
      else if mode_arg = ''filter'' then Inr (initial env (nat throttle_arg) Filter)
      else if mode_arg = ''all'' then Inr (initial env (nat throttle_arg) All)
      else Inl ERR_INVALID_ARG_VALUE)"

section \<open>The watch registry\<close>

fun isPathWatched_loop :: "env \<Rightarrow> jsval \<Rightarrow> (jsval \<times> watcher) list \<Rightarrow> error + bool" where
  "isPathWatched_loop env path [] = Inr False"
| "isPathWatched_loop env path ((watchedPath, w) # rest) =
     (if recursive w then
        (case js_startsWith env path watchedPath of
           Inl e \<Rightarrow> Inl e
         | Inr True \<Rightarrow> Inr True
         | Inr False \<Rightarrow> isPathWatched_loop env path rest)
      else isPathWatched_loop env path rest)"

definition isPathWatched :: "env \<Rightarrow> jsval \<Rightarrow> state \<Rightarrow> error + bool" where
  "isPathWatched env path s =
     (if map_has path (watchers s) then Inr True
      else isPathWatched_loop env path (watchers s))"

text \<open>\<open>#unwatch\<close>: \<open>removeAllListeners()\<close> and \<open>close()\<close> on the handle.\<close>

definition unwatch :: "watcher \<Rightarrow> state \<Rightarrow> state" where
  "unwatch w s =
     s\<lparr>fs_handles := (fs_handles s)[handle w := \<lparr>listening = False, closed = True\<rparr>]\<rparr>"

text \<open>
  \<open>#removeWatchedChildren\<close> walks the entries of \<open>#watchers\<close> and deletes the entry it
  stands on; no other entry is added or deleted during the walk, so it visits the
  entries the map had at the start.
\<close>

fun removeWatchedChildren_loop ::
  "env \<Rightarrow> jsval \<Rightarrow> (jsval \<times> watcher) list \<Rightarrow> state \<Rightarrow> error option \<times> state" where
  "removeWatchedChildren_loop env path [] s = (None, s)"
| "removeWatchedChildren_loop env path ((watchedPath, w) # rest) s =
     (if path \<noteq> watchedPath then
        (case js_startsWith env watchedPath path of
           Inl e \<Rightarrow> (Some e, s)
         | Inr True \<Rightarrow>
             removeWatchedChildren_loop env path rest
               ((unwatch w s)\<lparr>watchers := AList.delete watchedPath (watchers (unwatch w s))\<rparr>)
         | Inr False \<Rightarrow> removeWatchedChildren_loop env path rest s)
      else removeWatchedChildren_loop env path rest s)"

definition removeWatchedChildren :: "env \<Rightarrow> jsval \<Rightarrow> state \<Rightarrow> error option \<times> state" where
  "removeWatchedChildren env path s = removeWatchedChildren_loop env path (watchers s) s"

text \<open>\<open>get watchedPaths\<close>: the keys of \<open>#watchers\<close>.\<close>

definition watchedPaths :: "state \<Rightarrow> jsval list" where
  "watchedPaths s = map fst (watchers s)"

definition watchPath :: "env \<Rightarrow> jsval \<Rightarrow> bool \<Rightarrow> state \<Rightarrow> error option \<times> state" where
  "watchPath env path rec s =
     (case isPathWatched env path s of
        Inl e \<Rightarrow> (Some e, s)
      | Inr True \<Rightarrow> (None, s)
      | Inr False \<Rightarrow>
          (case fs_watch env path rec of
             Some e \<Rightarrow> (Some e, s)
           | None \<Rightarrow>
               (let s1 = s\<lparr>fs_handles := fs_handles s @ [\<lparr>listening = True, closed = False\<rparr>],
                           watchers := AList.update path
                             \<lparr>handle = length (fs_handles s), recursive = rec\<rparr> (watchers s)\<rparr>
                in if rec then removeWatchedChildren env path s1 else (None, s1))))"

section \<open>The change handler and its throttle\<close>

text \<open>
  \<open>#onChange\<close>.  \<open>setTimeout(f, throttle)\<close> is a pending timer: the time from which it
  may run, and the trigger it removes from \<open>#throttling\<close>.
\<close>

definition onChange :: "jsval \<Rightarrow> state \<Rightarrow> state" where
  "onChange trigger s =
     (if set_has trigger (throttling s) then s
      else if mode s = Filter \<and> \<not> set_has trigger (filteredFiles s) then s
      else s\<lparr>throttling := set_add trigger (throttling s),
             emitted := emitted s @
               [\<lparr>ev_time = clock s, ev_trigger = trigger,
                 ev_owners = map_of (depencencyOwners s) trigger\<rparr>],
             timers := timers s @ [(clock s + throttle s, trigger)]\<rparr>)"

text \<open>The \<open>i\<close>-th pending timer runs: not before its time; it is then no longer pending.\<close>

definition timer_fires :: "nat \<Rightarrow> state \<Rightarrow> state" where
  "timer_fires i s =
     (if i < length (timers s) \<and> fst (timers s ! i) \<le> clock s
      then s\<lparr>throttling := set_delete (snd (timers s ! i)) (throttling s),
             timers := take i (timers s) @ drop (Suc i) (timers s)\<rparr>
      else s)"

definition tick :: "nat \<Rightarrow> state \<Rightarrow> state" where
  "tick dt s = s\<lparr>clock := clock s + dt\<rparr>"

text \<open>The index of the pending timer of a trigger (the length of the list when it has
  none).\<close>

definition timer_for :: "jsval \<Rightarrow> state \<Rightarrow> nat" where
  "timer_for t s = length (takeWhile (\<lambda>x. snd x \<noteq> t) (timers s))"


section \<open>The dependency graph\<close>

definition filterFile :: "env \<Rightarrow> jsval \<Rightarrow> jsval \<Rightarrow> state \<Rightarrow> error option \<times> state" where
  "filterFile env file ownr s =
     (if \<not> truthy file then (None, s)
      else
        (case (if supportsRecursiveWatching env then
                 (case dirname env file of
                    Inl e \<Rightarrow> (Some e, s)
                  | Inr d \<Rightarrow> watchPath env d True s)
               else watchPath env file False s) of
           (Some e, s1) \<Rightarrow> (Some e, s1)
         | (None, s1) \<Rightarrow>
             (let s2 = s1\<lparr>filteredFiles := set_add file (filteredFiles s1)\<rparr>
              in if truthy ownr then
                   (let owners = (case map_of (depencencyOwners s2) file of
                                    Some os \<Rightarrow> os | None \<Rightarrow> []);
                        a = (case map_of (ownerDependencies s2) file of
                               Some a' \<Rightarrow> a' | None \<Rightarrow> length (dep_sets s2));
                        h = (case map_of (ownerDependencies s2) file of
                               Some a' \<Rightarrow> dep_sets s2 | None \<Rightarrow> dep_sets s2 @ [[]])
                    in (None,
                        s2\<lparr>depencencyOwners :=
                              AList.update file (set_add ownr owners) (depencencyOwners s2),
                            dep_sets := h[a := set_add file (deref h a)],
                            ownerDependencies := AList.update ownr a (ownerDependencies s2)\<rparr>))
                 else (None, s2))))"

fun unfilter_dependencies :: "jsval list \<Rightarrow> state \<Rightarrow> state" where
  "unfilter_dependencies [] s = s"
| "unfilter_dependencies (dependency # rest) s =
     unfilter_dependencies rest
       (s\<lparr>filteredFiles := set_delete dependency (filteredFiles s),
          depencencyOwners := AList.delete dependency (depencencyOwners s)\<rparr>)"

definition unfilter_owner :: "jsval \<Rightarrow> state \<Rightarrow> state" where
  "unfilter_owner ownr s =
     (let s1 = (case map_of (ownerDependencies s) ownr of
                  None \<Rightarrow> s
                | Some a \<Rightarrow> unfilter_dependencies (deref (dep_sets s) a) s)
      in s1\<lparr>filteredFiles := set_delete ownr (filteredFiles s1),
             depencencyOwners := AList.delete ownr (depencencyOwners s1),
             ownerDependencies := AList.delete ownr (ownerDependencies s1)\<rparr>)"

fun unfilterFilesOwnedBy :: "jsval list \<Rightarrow> state \<Rightarrow> state" where
  "unfilterFilesOwnedBy [] s = s"
| "unfilterFilesOwnedBy (ownr # rest) s = unfilterFilesOwnedBy rest (unfilter_owner ownr s)"

definition clearFileFilters :: "state \<Rightarrow> state" where
  "clearFileFilters s = s\<lparr>filteredFiles := []\<rparr>"

definition clear :: "state \<Rightarrow> state" where
  "clear s =
     (fold unwatch (map snd (watchers s)) s)
       \<lparr>watchers := [], filteredFiles := [], depencencyOwners := [], ownerDependencies := []\<rparr>"

section \<open>The relay to the child process\<close>

definition set_child :: "nat \<Rightarrow> child \<Rightarrow> state \<Rightarrow> state" where
  "set_child c ch s = s\<lparr>children := AList.update c ch (children s)\<rparr>"

text \<open>\<open>#setupIPC\<close>: two new closures, stored on the child and registered on \<open>process\<close>
  and on the child.\<close>

definition setupIPC :: "nat \<Rightarrow> state \<Rightarrow> state" where
  "setupIPC c s =
     (let p2c = next_closure s; c2p = Suc (next_closure s); ch = get_child s c
      in set_child c
           (ch\<lparr>ipcMessages := Some (p2c, c2p),
               message_listeners := message_listeners ch @ [(c2p, ChildToParent)]\<rparr>)
           (s\<lparr>process_listeners := process_listeners s @ [(p2c, ParentToChild c)],
              next_closure := Suc (Suc (next_closure s))\<rparr>))"

text \<open>\<open>destroyIPC\<close>: reading \<open>child._ipcMessages.parentToChild\<close> throws a TypeError
  when \<open>child._ipcMessages\<close> is undefined.\<close>

definition destroyIPC :: "nat \<Rightarrow> state \<Rightarrow> error option \<times> state" where
  "destroyIPC c s =
     (if wantsPassthroughIPC s then
        (case ipcMessages (get_child s c) of
           None \<Rightarrow> (Some TypeError, s)
         | Some (p2c, c2p) \<Rightarrow>
             (let s1 = s\<lparr>process_listeners := AList.delete p2c (process_listeners s)\<rparr>;
                  ch = get_child s1 c
              in (None,
                  set_child c
                    (ch\<lparr>message_listeners := AList.delete c2p (message_listeners ch)\<rparr>) s1)))
      else (None, s))"

definition watchChildProcessModules :: "nat \<Rightarrow> jsval \<Rightarrow> state \<Rightarrow> state" where
  "watchChildProcessModules c key s =
     (let s1 = (if wantsPassthroughIPC s then setupIPC c s else s)
      in if mode s1 \<noteq> Filter then s1
         else (let ch = get_child s1 c
               in set_child c
                    (ch\<lparr>message_listeners :=
                          message_listeners ch @ [(next_closure s1, ModuleReports key)]\<rparr>)
                    (s1\<lparr>next_closure := Suc (next_closure s1)\<rparr>)))"

text \<open>
  A message as the handler reads it.  \<open>message['watch:require']\<close> throws a TypeError on
  \<open>undefined\<close> and \<open>null\<close>.  On any other value \<open>MValue req imp\<close>, \<open>req\<close> is
  \<open>Some xs\<close> when the property \<open>watch:require\<close> is an array of elements \<open>xs\<close>, and
  \<open>None\<close> when \<open>ArrayIsArray\<close> is false of it (the property is missing, is not an
  array, or the message is a primitive); \<open>imp\<close> likewise for \<open>watch:import\<close>.
\<close>

datatype message =
    MUndefined
  | MNull
  | MValue "jsval list option" "jsval list option"

text \<open>\<open>ArrayPrototypeForEach(list, (file) => this.filterFile(file, key))\<close>: the first
  element that throws ends the walk.\<close>

fun forEach_require :: "env \<Rightarrow> jsval \<Rightarrow> jsval list \<Rightarrow> state \<Rightarrow> error option \<times> state" where
  "forEach_require env key [] s = (None, s)"
| "forEach_require env key (file # rest) s =
     (case filterFile env file key s of
        (Some e, s1) \<Rightarrow> (Some e, s1)
      | (None, s1) \<Rightarrow> forEach_require env key rest s1)"

fun forEach_import :: "env \<Rightarrow> jsval \<Rightarrow> jsval list \<Rightarrow> state \<Rightarrow> error option \<times> state" where
  "forEach_import env key [] s = (None, s)"
| "forEach_import env key (file # rest) s =
     (case fileURLToPath env file of
        Inl e \<Rightarrow> (Some e, s)
      | Inr p \<Rightarrow>
          (case filterFile env p key s of
             (Some e, s1) \<Rightarrow> (Some e, s1)
           | (None, s1) \<Rightarrow> forEach_import env key rest s1))"

text \<open>The body of the \<open>try\<close> block of the handler.\<close>

definition message_try :: "env \<Rightarrow> jsval \<Rightarrow> message \<Rightarrow> state \<Rightarrow> error option \<times> state" where
  "message_try env key m s =
     (case m of
        MUndefined \<Rightarrow> (Some TypeError, s)
      | MNull \<Rightarrow> (Some TypeError, s)
      | MValue req imp \<Rightarrow>
          (case (case req of None \<Rightarrow> (None, s) | Some files \<Rightarrow> forEach_require env key files s) of
             (Some e, s1) \<Rightarrow> (Some e, s1)
           | (None, s1) \<Rightarrow>
               (case (case imp of None \<Rightarrow> (None, s1)
                      | Some urls \<Rightarrow> forEach_import env key urls s1) of
                  (Some e, s2) \<Rightarrow> (Some e, s2)
                | (None, s2) \<Rightarrow>
                    (let sendInitial = (req \<noteq> None \<or> imp \<noteq> None)
                     in if sendInitial \<and> process_send env
                        then (None, s2\<lparr>upstream := upstream s2 @ [WatchRestarted]\<rparr>)
                        else (None, s2)))))"

text \<open>The handler: \<open>try { ... } catch { }\<close>.  What the body changed before it threw
  stays changed.\<close>

definition on_child_message :: "env \<Rightarrow> jsval \<Rightarrow> message \<Rightarrow> state \<Rightarrow> error option \<times> state" where
  "on_child_message env key m s =
     (case message_try env key m s of
        (Some e, s1) \<Rightarrow> (None, s1)
      | (None, s1) \<Rightarrow> (None, s1))"

section \<open>Runs: sequences of calls and events\<close>

datatype op =
    WatchPath jsval bool
  | FilterFile jsval jsval
  | UnfilterFilesOwnedBy "jsval list"
  | ClearFileFilters
  | Clear
  | WatchChildProcessModules nat jsval
  | DestroyIPC nat
  | ChildMessage jsval message
  | RawChange jsval
  | TimerFires nat
  | Tick nat

text \<open>One call or event.  A call that throws leaves the state as it was at the throw.\<close>

fun step :: "env \<Rightarrow> op \<Rightarrow> state \<Rightarrow> state" where
  "step env (WatchPath p r) s = snd (watchPath env p r s)"
| "step env (FilterFile f ownr) s = snd (filterFile env f ownr s)"
| "step env (UnfilterFilesOwnedBy os) s = unfilterFilesOwnedBy os s"
| "step env ClearFileFilters s = clearFileFilters s"
| "step env Clear s = clear s"
| "step env (WatchChildProcessModules c key) s = watchChildProcessModules c key s"
| "step env (DestroyIPC c) s = snd (destroyIPC c s)"
| "step env (ChildMessage key m) s = snd (on_child_message env key m s)"
| "step env (RawChange trigger) s = onChange trigger s"
| "step env (TimerFires i) s = timer_fires i s"
| "step env (Tick dt) s = tick dt s"

fun run :: "env \<Rightarrow> op list \<Rightarrow> state \<Rightarrow> state" where
  "run env [] s = s"
| "run env (x # xs) s = run env xs (step env x s)"

section \<open>Parts of two methods, named for the proofs\<close>

text \<open>The first statement of \<open>filterFile\<close>, after the test of \<open>file\<close>: the
  watch request.  \<open>filterFile_alt\<close> below shows that \<open>filterFile\<close> is this request
  followed by the rest of its body.\<close>

definition filter_watch :: "env \<Rightarrow> jsval \<Rightarrow> state \<Rightarrow> error option \<times> state" where
  "filter_watch env file s =
     (if supportsRecursiveWatching env then
        (case dirname env file of
           Inl e \<Rightarrow> (Some e, s)
         | Inr d \<Rightarrow> watchPath env d True s)
      else watchPath env file False s)"

text \<open>The two walks of the handler, before the notification; \<open>message_try_alt\<close>
  below shows that the body of the handler is these walks followed by the send.\<close>

definition message_lists :: "env \<Rightarrow> jsval \<Rightarrow> message \<Rightarrow> state \<Rightarrow> error option \<times> state" where
  "message_lists env key m s =
     (case m of
        MUndefined \<Rightarrow> (Some TypeError, s)
      | MNull \<Rightarrow> (Some TypeError, s)
      | MValue req imp \<Rightarrow>
          (case (case req of None \<Rightarrow> (None, s) | Some files \<Rightarrow> forEach_require env key files s) of
             (Some e, s1) \<Rightarrow> (Some e, s1)
           | (None, s1) \<Rightarrow>
               (case imp of None \<Rightarrow> (None, s1) | Some urls \<Rightarrow> forEach_import env key urls s1)))"

section \<open>Two platforms, for the examples\<close>

text \<open>
  Instances of the parameters on which the examples are evaluated: \<open>dirname\<close> drops the
  last segment of a path, \<open>fileURLToPath\<close> strips \<open>file://\<close>, \<open>fs.watch\<close> accepts
  every string, and values that are not strings are rejected.  \<open>darwin\<close> watches
  recursively and was spawned with an IPC channel; \<open>linux\<close> does neither.
\<close>

definition example_dirname :: "jsval \<Rightarrow> error + jsval" where
  "example_dirname v =
     (case v of
        JStr s \<Rightarrow> Inr (JStr (rev (drop 1 (dropWhile (\<lambda>c. c \<noteq> CHR ''/'') (rev s)))))
      | _ \<Rightarrow> Inl ERR_INVALID_ARG_TYPE)"

definition example_fileURLToPath :: "jsval \<Rightarrow> error + jsval" where
  "example_fileURLToPath v =
     (case v of
        JStr s \<Rightarrow> (if take 7 s = ''file://'' then Inr (JStr (drop 7 s)) else Inl ERR_INVALID_URL)
      | _ \<Rightarrow> Inl ERR_INVALID_ARG_TYPE)"

definition example_fs_watch :: "jsval \<Rightarrow> bool \<Rightarrow> error option" where
  "example_fs_watch v r = (case v of JStr s \<Rightarrow> None | _ \<Rightarrow> Some ERR_INVALID_ARG_TYPE)"

definition darwin :: env where
  "darwin =
     \<lparr>supportsRecursiveWatching = True, process_send = True, timeout_max = 2147483647,
      dirname = example_dirname, fileURLToPath = example_fileURLToPath,
      fs_watch = example_fs_watch, startsWith_coerced = (\<lambda>a b. Inl TypeError)\<rparr>"

definition linux :: env where
  "linux = darwin\<lparr>supportsRecursiveWatching := False, process_send := False\<rparr>"

section \<open>Example states\<close>

text \<open>A registry with one recursive watch on \<open>/a\<close>, and one with a watch on the single
  file \<open>/a/b\<close>.\<close>

definition covered_example :: state where
  "covered_example =
     snd (watchPath darwin (JStr ''/a'') True (initial darwin 500 Filter))"

definition child_watched_example :: state where
  "child_watched_example =
     snd (watchPath darwin (JStr ''/a/b'') False (initial darwin 500 Filter))"

text \<open>One owner registered with two files, then unfiltered.\<close>

definition two_files_example :: state where
  "two_files_example =
     run darwin
       [FilterFile (JStr ''/a/f1.js'') (JStr ''o''),
        FilterFile (JStr ''/a/f2.js'') (JStr ''o''),
        UnfilterFilesOwnedBy [JStr ''o'']]
       (initial darwin 100 Filter)"

text \<open>The scenario of the specification: throttle 100, filter mode, one file with one
  owner.\<close>

definition throttle_example :: state where
  "throttle_example =
     run darwin [FilterFile (JStr ''/a/b.js'') (JStr ''ownerX'')] (initial darwin 100 Filter)"

text \<open>Two owners of one file, one of them unfiltered; and a run in which every owner
  has one file.\<close>

definition shared_file_example :: state where
  "shared_file_example =
     run linux
       [FilterFile (JStr ''/a/f.js'') (JStr ''o1''),
        FilterFile (JStr ''/a/f.js'') (JStr ''o2''),
        UnfilterFilesOwnedBy [JStr ''o1'']]
       (initial linux 500 Filter)"

definition three_owners_ops :: "op list" where
  "three_owners_ops =
     [FilterFile (JStr ''/a/f.js'') (JStr ''o1''),
      FilterFile (JStr ''/a/f.js'') (JStr ''o2''),
      ChildMessage (JStr ''o3'') (MValue (Some [JStr ''/a/g.js'']) None),
      UnfilterFilesOwnedBy [JStr ''o1'']]"


section \<open>Notions used in the statements\<close>

text \<open>A message in which at least one of the two recognized keys holds an array (the
  array can be empty).\<close>

fun recognized :: "message \<Rightarrow> bool" where
  "recognized (MValue req imp) = (req \<noteq> None \<or> imp \<noteq> None)"
| "recognized m = False"


fun is_str :: "jsval \<Rightarrow> bool" where
  "is_str (JStr s) = True"
| "is_str v = False"




text \<open>The (file, owner) pairs that a call or event can pass to \<open>filterFile\<close>: its own
  arguments, or every listed path of a child message with the key of the handler.\<close>

fun url_paths :: "env \<Rightarrow> jsval list \<Rightarrow> jsval list" where
  "url_paths env [] = []"
| "url_paths env (u # us) =
     (case fileURLToPath env u of Inl e \<Rightarrow> url_paths env us | Inr p \<Rightarrow> p # url_paths env us)"

fun message_files :: "env \<Rightarrow> message \<Rightarrow> jsval list" where
  "message_files env (MValue req imp) =
     (case req of None \<Rightarrow> [] | Some files \<Rightarrow> files) @
     (case imp of None \<Rightarrow> [] | Some urls \<Rightarrow> url_paths env urls)"
| "message_files env m = []"

fun registrations :: "env \<Rightarrow> op \<Rightarrow> (jsval \<times> jsval) list" where
  "registrations env (FilterFile f ownr) = [(f, ownr)]"
| "registrations env (ChildMessage key m) = map (\<lambda>f. (f, key)) (message_files env m)"
| "registrations env x = []"

definition all_registrations :: "env \<Rightarrow> op list \<Rightarrow> (jsval \<times> jsval) list" where
  "all_registrations env ops = concat (map (registrations env) ops)"

text \<open>No owner is registered with two different files (registrations with a falsy file
  or a falsy owner do not touch the graph and do not count).\<close>

definition one_file_per_owner :: "(jsval \<times> jsval) list \<Rightarrow> bool" where
  "one_file_per_owner regs =
     (\<forall>(f1, o1)\<in>set regs. \<forall>(f2, o2)\<in>set regs.
        truthy f1 \<and> truthy o1 \<and> truthy f2 \<and> truthy o2 \<and> o1 = o2 \<longrightarrow> f1 = f2)"

text \<open>The events emitted for one trigger, and the separation of the events of every
  trigger by a delay.\<close>

definition events_for :: "jsval \<Rightarrow> changed_event list \<Rightarrow> changed_event list" where
  "events_for t es = filter (\<lambda>e. ev_trigger e = t) es"

fun separated :: "nat \<Rightarrow> changed_event list \<Rightarrow> bool" where
  "separated d [] = True"
| "separated d (e # es) =
     ((\<forall>e'\<in>set es. ev_trigger e' = ev_trigger e \<longrightarrow> ev_time e + d \<le> ev_time e') \<and>
      separated d es)"

text \<open>A run that registers three files, none of them \<open>/a/x.js\<close>.\<close>

definition other_file_ops :: "op list" where
  "other_file_ops =
     [FilterFile (JStr ''/a/b.js'') (JStr ''o''),
      ChildMessage (JStr ''o'') (MValue (Some [JStr ''/a/c.js'']) (Some [JStr ''file:///a/d.js''])),
      RawChange (JStr ''/a/b.js''), Tick 600]"

section \<open>What a method leaves alone\<close>

text \<open>The fields that no method of the registry and of the graph writes.\<close>

definition frame :: "state \<Rightarrow> state \<Rightarrow> bool" where
  "frame s s' =
     (throttling s' = throttling s \<and> timers s' = timers s \<and> emitted s' = emitted s \<and>
      clock s' = clock s \<and> throttle s' = throttle s \<and> mode s' = mode s \<and>
      wantsPassthroughIPC s' = wantsPassthroughIPC s \<and>
      process_listeners s' = process_listeners s \<and> children s' = children s \<and>
      next_closure s' = next_closure s)"

text \<open>The fields of the graph.\<close>

definition same_graph :: "state \<Rightarrow> state \<Rightarrow> bool" where
  "same_graph s s' =
     (filteredFiles s' = filteredFiles s \<and> depencencyOwners s' = depencencyOwners s \<and>
      ownerDependencies s' = ownerDependencies s \<and> dep_sets s' = dep_sets s)"

text \<open>The invariant of the graph in a run whose registrations are among \<open>regs\<close>: the
  addresses are allocated, and an owner recorded for a file was registered with it and
  has it among its dependencies.\<close>

definition graph_inv :: "(jsval \<times> jsval) list \<Rightarrow> state \<Rightarrow> bool" where
  "graph_inv regs s =
     ((\<forall>ownr a. map_of (ownerDependencies s) ownr = Some a \<longrightarrow> a < length (dep_sets s)) \<and>
      (\<forall>f ownr. ownr \<in> set (file_owners s f) \<longrightarrow>
         f \<in> set (owner_files s ownr) \<and> (f, ownr) \<in> set regs \<and> truthy f \<and> truthy ownr))"

text \<open>The fields behind the throttle, and the mode.\<close>

definition same_throttle :: "state \<Rightarrow> state \<Rightarrow> bool" where
  "same_throttle s s' =
     (throttling s' = throttling s \<and> timers s' = timers s \<and> emitted s' = emitted s \<and>
      clock s' = clock s \<and> throttle s' = throttle s \<and> mode s' = mode s)"

text \<open>The invariant of the throttle: an emitted event is not in the future; its trigger
  is throttled until the delay has passed; a throttled trigger has one pending timer,
  due no sooner than the delay after each event of that trigger.\<close>

definition throttle_inv :: "state \<Rightarrow> bool" where
  "throttle_inv s =
     ((\<forall>e\<in>set (emitted s). ev_time e \<le> clock s) \<and>
      (\<forall>e\<in>set (emitted s). ev_trigger e \<in> set (throttling s) \<or> ev_time e + throttle s \<le> clock s) \<and>
      (\<forall>(due, p)\<in>set (timers s). p \<in> set (throttling s)) \<and>
      distinct (map snd (timers s)) \<and>
      (\<forall>(due, p)\<in>set (timers s). \<forall>e\<in>set (emitted s).
         ev_trigger e = p \<longrightarrow> ev_time e + throttle s \<le> due) \<and>
      separated (throttle s) (emitted s))"

section \<open>filterFile with a falsy file\<close>

text \<open>
  C10.  \<open>filterFile\<close> with a falsy \<open>file\<close> (undefined, null, the empty string, false, 0)
  returns at once, for every state and every owner: it does not throw and the state
  after it is the state before it (no watch, the same filtered files, the same owner
  graph).
\<close>

theorem C10_filterFile_falsy_noop:
  "\<not> truthy file \<Longrightarrow> filterFile env file ownr s = (None, s)"
  by (simp add: filterFile_def)

theorem C10_filterFile_falsy_noop_witness:
  "\<not> truthy (JStr []) \<and>
   filterFile darwin (JStr []) (JStr ''owner'') (initial darwin 500 Filter) =
     (None, initial darwin 500 Filter)"
  using C10_filterFile_falsy_noop [of "JStr []" darwin "JStr ''owner''" "initial darwin 500 Filter"]
  by simp

lemmas example_defs =
  darwin_def linux_def initial_def example_dirname_def example_fs_watch_def
  example_fileURLToPath_def

lemmas method_defs =
  filterFile_def watchPath_def isPathWatched_def removeWatchedChildren_def unwatch_def
  unfilter_owner_def clearFileFilters_def onChange_def
  map_has_def set_has_def set_add_def set_delete_def deref_def

section \<open>Frame lemmas\<close>

lemma frame_refl: "frame s s"
  by (simp add: frame_def)

lemma frame_trans: "frame s s1 \<Longrightarrow> frame s1 s2 \<Longrightarrow> frame s s2"
  by (simp add: frame_def)

lemma same_graph_refl: "same_graph s s"
  by (simp add: same_graph_def)

lemma same_graph_trans: "same_graph s s1 \<Longrightarrow> same_graph s1 s2 \<Longrightarrow> same_graph s s2"
  by (simp add: same_graph_def)

lemma loop_frame:
  "frame s (snd (removeWatchedChildren_loop env path ws s)) \<and>
   same_graph s (snd (removeWatchedChildren_loop env path ws s)) \<and>
   upstream (snd (removeWatchedChildren_loop env path ws s)) = upstream s"
proof (induction ws arbitrary: s)
  case Nil
  show ?case by (simp add: frame_def same_graph_def)
next
  case (Cons x ws)
  obtain wp w where x: "x = (wp, w)" by (cases x)
  let ?s1 = "(unwatch w s)\<lparr>watchers := AList.delete wp (watchers (unwatch w s))\<rparr>"
  have s1: "frame s ?s1 \<and> same_graph s ?s1 \<and> upstream ?s1 = upstream s"
    by (simp add: frame_def same_graph_def unwatch_def)
  from Cons.IH [of s] Cons.IH [of ?s1] s1 show ?case
    by (auto simp: x frame_def same_graph_def split: sum.splits bool.splits)
qed

lemma watchPath_frame:
  "frame s (snd (watchPath env path r s)) \<and>
   same_graph s (snd (watchPath env path r s)) \<and>
   upstream (snd (watchPath env path r s)) = upstream s"
proof -
  let ?s1 = "s\<lparr>fs_handles := fs_handles s @ [\<lparr>listening = True, closed = False\<rparr>],
               watchers := AList.update path
                 \<lparr>handle = length (fs_handles s), recursive = r\<rparr> (watchers s)\<rparr>"
  have s1: "frame s ?s1 \<and> same_graph s ?s1 \<and> upstream ?s1 = upstream s"
    by (simp add: frame_def same_graph_def)
  from loop_frame [of ?s1 env path "watchers ?s1"] s1 show ?thesis
    by (auto simp: watchPath_def removeWatchedChildren_def Let_def frame_def same_graph_def
        split: sum.splits bool.splits option.splits)
qed

lemma filter_watch_frame:
  "frame s (snd (filter_watch env file s)) \<and>
   same_graph s (snd (filter_watch env file s)) \<and>
   upstream (snd (filter_watch env file s)) = upstream s"
  using watchPath_frame [of s env "file" False] watchPath_frame [of s env _ True]
  by (auto simp: filter_watch_def frame_refl same_graph_refl split: sum.splits)

lemma filterFile_alt:
  "filterFile env file ownr s =
     (if \<not> truthy file then (None, s)
      else
        (case filter_watch env file s of
           (Some e, s1) \<Rightarrow> (Some e, s1)
         | (None, s1) \<Rightarrow>
             (let s2 = s1\<lparr>filteredFiles := set_add file (filteredFiles s1)\<rparr>
              in if truthy ownr then
                   (let owners = (case map_of (depencencyOwners s2) file of
                                    Some os \<Rightarrow> os | None \<Rightarrow> []);
                        a = (case map_of (ownerDependencies s2) file of
                               Some a' \<Rightarrow> a' | None \<Rightarrow> length (dep_sets s2));
                        h = (case map_of (ownerDependencies s2) file of
                               Some a' \<Rightarrow> dep_sets s2 | None \<Rightarrow> dep_sets s2 @ [[]])
                    in (None,
                        s2\<lparr>depencencyOwners :=
                              AList.update file (set_add ownr owners) (depencencyOwners s2),
                            dep_sets := h[a := set_add file (deref h a)],
                            ownerDependencies := AList.update ownr a (ownerDependencies s2)\<rparr>))
                 else (None, s2))))"
  by (simp add: filterFile_def filter_watch_def)

lemma filterFile_frame:
  "frame s (snd (filterFile env file ownr s)) \<and>
   upstream (snd (filterFile env file ownr s)) = upstream s"
proof -
  obtain r1 s1 where w: "filter_watch env file s = (r1, s1)" by (cases "filter_watch env file s")
  with filter_watch_frame [of s env "file"]
  have f: "frame s s1" "upstream s1 = upstream s" by simp_all
  then show ?thesis
    by (auto simp: filterFile_alt w Let_def frame_def split: option.splits)
qed

section \<open>The watch registry: coverage and pruning\<close>

lemma isPathWatched_loop_strings:
  "\<forall>(wp, w)\<in>set ws. is_str wp \<Longrightarrow>
   isPathWatched_loop env (JStr p) ws =
     Inr (\<exists>(wp, w)\<in>set ws. recursive w \<and> (\<exists>x. wp = JStr x \<and> prefix x p))"
proof (induction ws)
  case Nil
  show ?case by simp
next
  case (Cons a ws)
  obtain wp w where a: "a = (wp, w)" by (cases a)
  from Cons.prems a obtain x where wp: "wp = JStr x" by (cases wp) auto
  from Cons show ?case by (auto simp: a wp split: bool.splits)
qed

lemma isPathWatched_strings:
  "\<forall>(wp, w)\<in>set (watchers s). is_str wp \<Longrightarrow>
   isPathWatched env (JStr p) s =
     Inr (map_has (JStr p) (watchers s) \<or>
          (\<exists>(wp, w)\<in>set (watchers s). recursive w \<and> (\<exists>x. wp = JStr x \<and> prefix x p)))"
  by (simp add: isPathWatched_def isPathWatched_loop_strings)

text \<open>
  C5.  \<open>watchPath(p)\<close> on a path that has its own entry, or that starts with the root
  of an existing recursive entry, returns without registering anything: the state is
  unchanged, so \<open>watchedPaths\<close> does not grow.  Paths are strings.
\<close>

theorem C5_watchPath_covered_noop:
  assumes "\<forall>(wp, w)\<in>set (watchers s). is_str wp"
    and "map_has (JStr p) (watchers s) \<or>
         (\<exists>(wp, w)\<in>set (watchers s). recursive w \<and> (\<exists>x. wp = JStr x \<and> prefix x p))"
  shows "watchPath env (JStr p) r s = (None, s) \<and>
         length (watchedPaths (snd (watchPath env (JStr p) r s))) \<le> length (watchedPaths s)"
proof -
  from assms have "isPathWatched env (JStr p) s = Inr True"
    by (simp add: isPathWatched_strings)
  then show ?thesis by (simp add: watchPath_def)
qed

lemma covered_example_watchers:
  "watchers covered_example = [(JStr ''/a'', \<lparr>handle = 0, recursive = True\<rparr>)]"
  by (simp add: covered_example_def watchPath_def isPathWatched_def map_has_def initial_def
      darwin_def example_fs_watch_def removeWatchedChildren_def)

theorem C5_watchPath_covered_noop_witness:
  "watchPath darwin (JStr ''/a/b'') True covered_example = (None, covered_example) \<and>
   watchPath darwin (JStr ''/a'') False covered_example = (None, covered_example) \<and>
   watchedPaths covered_example = [JStr ''/a'']"
  using C5_watchPath_covered_noop [of covered_example "''/a/b''" darwin True]
    C5_watchPath_covered_noop [of covered_example "''/a''" darwin False]
  by (simp add: covered_example_watchers map_has_def watchedPaths_def)

lemma loop_cases:
  "(\<exists>e. removeWatchedChildren_loop env path ((wp, w) # ws) s = (Some e, s)) \<or>
   (path \<noteq> wp \<and>
    removeWatchedChildren_loop env path ((wp, w) # ws) s =
      removeWatchedChildren_loop env path ws
        ((unwatch w s)\<lparr>watchers := AList.delete wp (watchers (unwatch w s))\<rparr>)) \<or>
   removeWatchedChildren_loop env path ((wp, w) # ws) s =
     removeWatchedChildren_loop env path ws s"
  by (simp split: sum.splits bool.splits)

lemma loop_ok:
  "\<forall>(wp, w)\<in>set ws. is_str wp \<Longrightarrow>
   fst (removeWatchedChildren_loop env (JStr p) ws s) = None"
proof (induction ws arbitrary: s)
  case Nil
  show ?case by simp
next
  case (Cons a ws)
  obtain wp w where a: "a = (wp, w)" by (cases a)
  from Cons.prems a obtain x where wp: "wp = JStr x" by (cases wp) auto
  from Cons.prems have "\<And>s. fst (removeWatchedChildren_loop env (JStr p) ws s) = None"
    by (simp add: Cons.IH)
  then show ?case by (auto simp: a wp split: bool.splits)
qed

lemma delete_keys_subset: "set (map fst (AList.delete k al)) \<subseteq> set (map fst al)"
  by (induction al) auto

lemma loop_keys_subset:
  "set (map fst (watchers (snd (removeWatchedChildren_loop env path ws s))))
     \<subseteq> set (map fst (watchers s))"
proof (induction ws arbitrary: s)
  case Nil
  show ?case by simp
next
  case (Cons a ws)
  obtain wp w where a: "a = (wp, w)" by (cases a)
  let ?s1 = "(unwatch w s)\<lparr>watchers := AList.delete wp (watchers (unwatch w s))\<rparr>"
  have "set (map fst (watchers ?s1)) \<subseteq> set (map fst (watchers s))"
    using delete_keys_subset [of wp "watchers s"] by (simp add: unwatch_def)
  with Cons.IH [of s] Cons.IH [of ?s1] loop_cases [of env path wp w ws s] show ?case
    unfolding a by (elim disjE exE conjE) (auto simp del: removeWatchedChildren_loop.simps)
qed

lemma loop_keeps_path:
  "map_of (watchers (snd (removeWatchedChildren_loop env path ws s))) path =
   map_of (watchers s) path"
proof (induction ws arbitrary: s)
  case Nil
  show ?case by simp
next
  case (Cons a ws)
  obtain wp w where a: "a = (wp, w)" by (cases a)
  let ?s1 = "(unwatch w s)\<lparr>watchers := AList.delete wp (watchers (unwatch w s))\<rparr>"
  have s1: "path \<noteq> wp \<Longrightarrow> map_of (watchers ?s1) path = map_of (watchers s) path"
    by (simp add: unwatch_def delete_conv)
  from Cons.IH [of s] Cons.IH [of ?s1] loop_cases [of env path wp w ws s] s1
  show ?case unfolding a by (elim disjE exE conjE) (auto simp del: removeWatchedChildren_loop.simps)
qed

lemma loop_handles_length:
  "length (fs_handles (snd (removeWatchedChildren_loop env path ws s))) = length (fs_handles s)"
proof (induction ws arbitrary: s)
  case Nil
  show ?case by simp
next
  case (Cons a ws)
  obtain wp w where a: "a = (wp, w)" by (cases a)
  let ?s1 = "(unwatch w s)\<lparr>watchers := AList.delete wp (watchers (unwatch w s))\<rparr>"
  have s1: "length (fs_handles ?s1) = length (fs_handles s)"
    by (simp add: unwatch_def)
  from Cons.IH [of s] Cons.IH [of ?s1] loop_cases [of env path wp w ws s] s1
  show ?case unfolding a by (elim disjE exE conjE) (auto simp del: removeWatchedChildren_loop.simps)
qed

lemma loop_keeps_closed:
  "i < length (fs_handles s) \<Longrightarrow> fs_handles s ! i = \<lparr>listening = False, closed = True\<rparr> \<Longrightarrow>
   fs_handles (snd (removeWatchedChildren_loop env path ws s)) ! i =
     \<lparr>listening = False, closed = True\<rparr>"
proof (induction ws arbitrary: s)
  case Nil
  then show ?case by simp
next
  case (Cons a ws)
  obtain wp w where a: "a = (wp, w)" by (cases a)
  let ?s1 = "(unwatch w s)\<lparr>watchers := AList.delete wp (watchers (unwatch w s))\<rparr>"
  have s1: "i < length (fs_handles ?s1)"
    "fs_handles ?s1 ! i = \<lparr>listening = False, closed = True\<rparr>"
    using Cons.prems by (cases "handle w = i"; simp add: unwatch_def)+
  from Cons.IH [OF Cons.prems] Cons.IH [OF s1] loop_cases [of env path wp w ws s] Cons.prems(2)
  show ?case unfolding a by (elim disjE exE conjE) (auto simp del: removeWatchedChildren_loop.simps)
qed

lemma loop_removes:
  assumes "\<forall>(wp, w)\<in>set ws. is_str wp"
    and "(JStr d, wd) \<in> set ws" and "d \<noteq> p" and "prefix p d"
    and "handle wd < length (fs_handles s)"
  shows "JStr d \<notin> set (map fst (watchers (snd (removeWatchedChildren_loop env (JStr p) ws s)))) \<and>
         fs_handles (snd (removeWatchedChildren_loop env (JStr p) ws s)) ! handle wd =
           \<lparr>listening = False, closed = True\<rparr>"
  using assms
proof (induction ws arbitrary: s)
  case Nil
  then show ?case by simp
next
  case (Cons a ws)
  obtain wp w where a: "a = (wp, w)" by (cases a)
  let ?s1 = "(unwatch w s)\<lparr>watchers := AList.delete wp (watchers (unwatch w s))\<rparr>"
  have strs: "\<forall>(wp, w)\<in>set ws. is_str wp" using Cons.prems(1) by simp
  have len1: "handle wd < length (fs_handles ?s1)"
    using Cons.prems(5) by (simp add: unwatch_def)
  show ?case
  proof (cases "a = (JStr d, wd)")
    case True
    then have e: "wp = JStr d" "w = wd" using a by simp_all
    have gone: "JStr d \<notin> set (map fst (watchers ?s1))"
      by (simp add: e unwatch_def AList.delete_eq) (auto simp: image_iff)
    have cl: "fs_handles ?s1 ! handle wd = \<lparr>listening = False, closed = True\<rparr>"
      using Cons.prems(5) by (simp add: e unwatch_def)
    have step: "removeWatchedChildren_loop env (JStr p) (a # ws) s =
                removeWatchedChildren_loop env (JStr p) ws ?s1"
      using Cons.prems(3,4) by (auto simp: a e)
    from loop_keys_subset [of env "JStr p" ws ?s1] gone
      loop_keeps_closed [OF len1 cl, of env "JStr p" ws]
    show ?thesis unfolding step by blast
  next
    case False
    with Cons.prems(2) have mem: "(JStr d, wd) \<in> set ws" by simp
    have ok: "fst (removeWatchedChildren_loop env (JStr p) ((wp, w) # ws) s) = None"
      using loop_ok [OF Cons.prems(1)] by (simp add: a)
    from Cons.IH [OF strs mem Cons.prems(3,4,5)] Cons.IH [OF strs mem Cons.prems(3,4) len1]
      loop_cases [of env "JStr p" wp w ws s] ok
    show ?thesis unfolding a by (elim disjE exE conjE) (auto simp del: removeWatchedChildren_loop.simps)
  qed
qed

lemma update_keeps_entry:
  "(k, v) \<in> set al \<Longrightarrow> k \<noteq> k' \<Longrightarrow> (k, v) \<in> set (AList.update k' v' al)"
  by (induction al) auto

lemma update_keys: "set (map fst (AList.update k v al)) = insert k (set (map fst al))"
  by (induction al) auto

lemma update_strs:
  "\<forall>(wp, w)\<in>set al. is_str wp \<Longrightarrow> is_str k \<Longrightarrow>
   \<forall>(wp, w)\<in>set (AList.update k v al). is_str wp"
  by (induction al) auto

text \<open>
  C6.  The registry has an entry on \<open>d\<close>; \<open>p\<close> is a proper prefix of \<open>d\<close> and is not
  covered (it has no entry and no recursive entry's root is a prefix of it); \<open>fs.watch\<close>
  accepts \<open>p\<close>.  Then \<open>watchPath(p, true)\<close> returns normally, \<open>p\<close> is in
  \<open>watchedPaths\<close>, \<open>d\<close> is not, and the handle of the entry on \<open>d\<close> has lost its
  listeners and is closed.  Paths are strings.
\<close>

theorem C6_recursive_parent_prunes_descendant:
  assumes "\<forall>(wp, w)\<in>set (watchers s). is_str wp"
    and "(JStr d, wd) \<in> set (watchers s)"
    and "handle wd < length (fs_handles s)"
    and "prefix p d" and "d \<noteq> p"
    and "\<not> map_has (JStr p) (watchers s)"
    and "\<not> (\<exists>(wp, w)\<in>set (watchers s). recursive w \<and> (\<exists>x. wp = JStr x \<and> prefix x p))"
    and "fs_watch env (JStr p) True = None"
  shows "fst (watchPath env (JStr p) True s) = None \<and>
         JStr p \<in> set (watchedPaths (snd (watchPath env (JStr p) True s))) \<and>
         JStr d \<notin> set (watchedPaths (snd (watchPath env (JStr p) True s))) \<and>
         fs_handles (snd (watchPath env (JStr p) True s)) ! handle wd =
           \<lparr>listening = False, closed = True\<rparr>"
proof -
  let ?s1 = "s\<lparr>fs_handles := fs_handles s @ [\<lparr>listening = True, closed = False\<rparr>],
               watchers := AList.update (JStr p)
                 \<lparr>handle = length (fs_handles s), recursive = True\<rparr> (watchers s)\<rparr>"
  let ?r = "removeWatchedChildren_loop env (JStr p) (watchers ?s1) ?s1"
  from assms(1,6,7) have nw: "isPathWatched env (JStr p) s = Inr False"
    by (simp add: isPathWatched_strings)
  with assms(8) have wp: "watchPath env (JStr p) True s = ?r"
    by (simp add: watchPath_def removeWatchedChildren_def Let_def)
  have strs: "\<forall>(wp, w)\<in>set (watchers ?s1). is_str wp"
    using update_strs [OF assms(1), of "JStr p"] by simp
  have mem: "(JStr d, wd) \<in> set (watchers ?s1)"
    using assms(2,5) by (simp add: update_keeps_entry)
  have len: "handle wd < length (fs_handles ?s1)" using assms(3) by simp
  have ok: "fst ?r = None" using strs by (rule loop_ok)
  have "map_of (watchers (snd ?r)) (JStr p) = map_of (watchers ?s1) (JStr p)"
    by (rule loop_keeps_path)
  then have "map_of (watchers (snd ?r)) (JStr p) \<noteq> None"
    by (simp add: update_conv')
  then have has: "JStr p \<in> set (watchedPaths (snd ?r))"
    by (simp add: watchedPaths_def map_of_eq_None_iff)
  from loop_removes [OF strs mem assms(5,4) len]
  have "JStr d \<notin> set (watchedPaths (snd ?r))"
    "fs_handles (snd ?r) ! handle wd = \<lparr>listening = False, closed = True\<rparr>"
    by (simp_all add: watchedPaths_def)
  with ok has show ?thesis unfolding wp by simp
qed

lemma child_watched_example_eq:
  "child_watched_example =
     (initial darwin 500 Filter)
       \<lparr>fs_handles := [\<lparr>listening = True, closed = False\<rparr>],
        watchers := [(JStr ''/a/b'', \<lparr>handle = 0, recursive = False\<rparr>)]\<rparr>"
  by (simp add: child_watched_example_def watchPath_def isPathWatched_def map_has_def initial_def
      darwin_def example_fs_watch_def)

theorem C6_recursive_parent_prunes_descendant_witness:
  "watchedPaths child_watched_example = [JStr ''/a/b''] \<and>
   fst (watchPath darwin (JStr ''/a'') True child_watched_example) = None \<and>
   JStr ''/a'' \<in> set (watchedPaths (snd (watchPath darwin (JStr ''/a'') True child_watched_example))) \<and>
   JStr ''/a/b'' \<notin> set (watchedPaths (snd (watchPath darwin (JStr ''/a'') True child_watched_example))) \<and>
   fs_handles (snd (watchPath darwin (JStr ''/a'') True child_watched_example)) ! 0 =
     \<lparr>listening = False, closed = True\<rparr>"
  using C6_recursive_parent_prunes_descendant
    [of child_watched_example "''/a/b''" "\<lparr>handle = 0, recursive = False\<rparr>" "''/a''" darwin]
  by (simp add: child_watched_example_eq map_has_def watchedPaths_def darwin_def
      example_fs_watch_def)

section \<open>Frame lemmas of the message handler\<close>

lemma forEach_require_frame:
  "frame s (snd (forEach_require env key files s)) \<and>
   upstream (snd (forEach_require env key files s)) = upstream s"
proof (induction files arbitrary: s)
  case Nil
  show ?case by (simp add: frame_refl)
next
  case (Cons f files)
  obtain r1 s1 where f: "filterFile env f key s = (r1, s1)" by (cases "filterFile env f key s")
  with filterFile_frame [of s env f key] have "frame s s1" "upstream s1 = upstream s" by simp_all
  with Cons.IH [of s1] show ?case
    by (auto simp: f intro: frame_trans split: option.splits)
qed

lemma forEach_import_frame:
  "frame s (snd (forEach_import env key urls s)) \<and>
   upstream (snd (forEach_import env key urls s)) = upstream s"
proof (induction urls arbitrary: s)
  case Nil
  show ?case by (simp add: frame_refl)
next
  case (Cons u urls)
  show ?case
  proof (cases "fileURLToPath env u")
    case (Inl e)
    then show ?thesis by (simp add: frame_refl)
  next
    case (Inr p)
    obtain r1 s1 where f: "filterFile env p key s = (r1, s1)" by (cases "filterFile env p key s")
    with filterFile_frame [of s env p key] have "frame s s1" "upstream s1 = upstream s" by simp_all
    with Cons.IH [of s1] show ?thesis
      by (auto simp: Inr f intro: frame_trans split: option.splits)
  qed
qed

lemma message_lists_frame:
  "frame s (snd (message_lists env key m s)) \<and>
   upstream (snd (message_lists env key m s)) = upstream s"
proof (cases m)
  case MUndefined
  then show ?thesis by (simp add: message_lists_def frame_refl)
next
  case MNull
  then show ?thesis by (simp add: message_lists_def frame_refl)
next
  case (MValue req imp)
  obtain r1 s1 where a: "(case req of None \<Rightarrow> (None, s) | Some files \<Rightarrow> forEach_require env key files s) = (r1, s1)"
    by (cases "(case req of None \<Rightarrow> (None, s) | Some files \<Rightarrow> forEach_require env key files s)")
  have f1: "frame s s1 \<and> upstream s1 = upstream s"
  proof (cases req)
    case None
    with a show ?thesis by (auto simp: frame_refl)
  next
    case (Some files)
    with a forEach_require_frame [of s env key files] show ?thesis by simp
  qed
  have f2: "frame s1 (snd (case imp of None \<Rightarrow> (None, s1) | Some urls \<Rightarrow> forEach_import env key urls s1)) \<and>
     upstream (snd (case imp of None \<Rightarrow> (None, s1) | Some urls \<Rightarrow> forEach_import env key urls s1)) = upstream s1"
  proof (cases imp)
    case None
    then show ?thesis by (simp add: frame_refl)
  next
    case (Some urls)
    with forEach_import_frame [of s1 env key urls] show ?thesis by simp
  qed
  from f1 f2 show ?thesis
    by (cases r1) (auto simp: message_lists_def MValue a intro: frame_trans)
qed

lemma message_try_alt:
  "message_try env key m s =
     (case message_lists env key m s of
        (Some e, s2) \<Rightarrow> (Some e, s2)
      | (None, s2) \<Rightarrow>
          (if recognized m \<and> process_send env
           then (None, s2\<lparr>upstream := upstream s2 @ [WatchRestarted]\<rparr>)
           else (None, s2)))"
  by (cases m) (auto simp: message_try_def message_lists_def split: option.splits prod.splits)

lemma message_try_frame: "frame s (snd (message_try env key m s))"
proof -
  obtain r2 s2 where a: "message_lists env key m s = (r2, s2)" by (cases "message_lists env key m s")
  with message_lists_frame [of s env key m] have "frame s s2" by simp
  then show ?thesis by (cases r2) (auto simp: message_try_alt a frame_def)
qed

lemma message_try_upstream:
  "upstream (snd (message_try env key m s)) =
     (if process_send env \<and> recognized m \<and> fst (message_try env key m s) = None
      then upstream s @ [WatchRestarted] else upstream s)"
proof -
  obtain r2 s2 where a: "message_lists env key m s = (r2, s2)" by (cases "message_lists env key m s")
  with message_lists_frame [of s env key m] have "upstream s2 = upstream s" by simp
  then show ?thesis by (cases r2) (auto simp: message_try_alt a)
qed

lemma on_child_message_snd: "snd (on_child_message env key m s) = snd (message_try env key m s)"
  by (simp add: on_child_message_def split: prod.splits option.splits)

section \<open>unfilterFilesOwnedBy after two files of one owner\<close>

text \<open>
  C2.  \<open>filterFile(f1, o)\<close>, \<open>filterFile(f2, o)\<close>, \<open>unfilterFilesOwnedBy([o])\<close>: the
  second \<open>filterFile\<close> replaced the dependencies of \<open>o\<close> by the set that holds \<open>f2\<close>
  alone, so \<open>f1\<close> is still filtered, still has \<open>o\<close> among its owners, and a
  notification for \<open>f1\<close> emits a \<open>changed\<close> event.
\<close>

theorem C2_unfilter_misses_earlier_file:
  "set_has (JStr ''/a/f1.js'') (filteredFiles two_files_example) \<and>
   file_owners two_files_example (JStr ''/a/f1.js'') = [JStr ''o''] \<and>
   owner_files two_files_example (JStr ''o'') = [] \<and>
   emitted (onChange (JStr ''/a/f1.js'') two_files_example) =
     [\<lparr>ev_time = 0, ev_trigger = JStr ''/a/f1.js'', ev_owners = Some [JStr ''o'']\<rparr>]"
  by (simp add: two_files_example_def example_defs method_defs file_owners_def owner_files_def)

section \<open>destroyIPC on a child that was never paired\<close>

text \<open>On a watcher with an upstream channel, \<open>destroyIPC\<close> on a child that
  \<open>#setupIPC\<close> never saw throws a TypeError.\<close>

theorem C4_destroyIPC_unpaired_counterexample:
  "ipcMessages (get_child (initial darwin 500 Filter) 0) = None \<and>
   fst (destroyIPC 0 (initial darwin 500 Filter)) = Some TypeError"
  by (simp add: destroyIPC_def get_child_def example_defs)

text \<open>
  C4 (amended).  On a child that was never paired, \<open>destroyIPC\<close> changes no state.  It
  returns normally exactly when the watcher has no upstream channel
  (\<open>#wantsPassthroughIPC\<close> is false); with an upstream channel it throws a TypeError.
\<close>

theorem C4_destroyIPC_unpaired:
  "ipcMessages (get_child s c) = None \<Longrightarrow>
   snd (destroyIPC c s) = s \<and>
   (fst (destroyIPC c s) = None \<longleftrightarrow> \<not> wantsPassthroughIPC s) \<and>
   (wantsPassthroughIPC s \<longrightarrow> fst (destroyIPC c s) = Some TypeError)"
  by (simp add: destroyIPC_def)

theorem C4_destroyIPC_unpaired_witness:
  "ipcMessages (get_child (initial linux 500 Filter) 0) = None \<and>
   destroyIPC 0 (initial linux 500 Filter) = (None, initial linux 500 Filter)"
  using C4_destroyIPC_unpaired [of "initial linux 500 Filter" 0]
  by (simp add: get_child_def example_defs prod_eq_iff)

section \<open>The child-message handler\<close>

text \<open>With an upstream channel, a message whose only recognized list is empty still
  sends \<open>watch:restarted\<close>.\<close>

theorem C3_restarted_empty_list_counterexample:
  "process_send darwin \<and>
   upstream (snd (on_child_message darwin JNull (MValue (Some []) None) (initial darwin 500 Filter))) =
     [WatchRestarted]"
  by (simp add: on_child_message_def message_try_def example_defs)

text \<open>
  C3 (amended).  The handler sends one \<open>watch:restarted\<close> upstream exactly when
  \<open>process.send\<close> exists, at least one of \<open>watch:require\<close> and \<open>watch:import\<close> holds
  an array (empty or not), and the walk over the lists did not throw; otherwise it sends
  nothing.
\<close>

theorem C3_restarted_iff:
  "upstream (snd (on_child_message env key m s)) =
     (if process_send env \<and> recognized m \<and> fst (message_try env key m s) = None
      then upstream s @ [WatchRestarted] else upstream s)"
  by (simp only: on_child_message_snd message_try_upstream)

theorem C3_restarted_iff_witness:
  "upstream (snd (on_child_message darwin JNull (MValue (Some [JStr ''/a/b.js'']) None)
      (initial darwin 500 Filter))) = [WatchRestarted] \<and>
   upstream (snd (on_child_message darwin JNull (MValue None None)
      (initial darwin 500 Filter))) = [] \<and>
   upstream (snd (on_child_message darwin JNull (MValue (Some [JStr ''/a/b.js'', JNum 42]) None)
      (initial darwin 500 Filter))) = [] \<and>
   upstream (snd (on_child_message linux JNull (MValue (Some [JStr ''/a/b.js'']) None)
      (initial linux 500 Filter))) = []"
  using C3_restarted_iff [of darwin JNull "MValue (Some [JStr ''/a/b.js'']) None" "initial darwin 500 Filter"]
    C3_restarted_iff [of darwin JNull "MValue None None" "initial darwin 500 Filter"]
    C3_restarted_iff [of darwin JNull "MValue (Some [JStr ''/a/b.js'', JNum 42]) None" "initial darwin 500 Filter"]
    C3_restarted_iff [of linux JNull "MValue (Some [JStr ''/a/b.js'']) None" "initial linux 500 Filter"]
  by (simp add: message_try_def example_defs method_defs)









text \<open>The body of the handler does throw: on \<open>null\<close>, on a listed file that is not a
  string, on a URL that does not convert.\<close>

lemma message_try_can_throw:
  "fst (message_try env key MNull s) = Some TypeError"
  "fst (message_try darwin JNull (MValue (Some [JNum 42]) None) (initial darwin 500 Filter)) =
     Some ERR_INVALID_ARG_TYPE"
  "fst (message_try darwin JNull (MValue None (Some [JStr ''http://x/y.js''])) (initial darwin 500 Filter)) =
     Some ERR_INVALID_URL"
  by (simp_all add: message_try_def example_defs method_defs)

section \<open>What the other calls leave alone\<close>

lemma frame_same_throttle: "frame s s' \<Longrightarrow> same_throttle s s'"
  by (simp add: frame_def same_throttle_def)

lemma unfilter_dependencies_frame:
  "frame s (unfilter_dependencies ds s) \<and>
   set (filteredFiles (unfilter_dependencies ds s)) \<subseteq> set (filteredFiles s) \<and>
   ownerDependencies (unfilter_dependencies ds s) = ownerDependencies s \<and>
   dep_sets (unfilter_dependencies ds s) = dep_sets s"
proof (induction ds arbitrary: s)
  case Nil
  show ?case by (simp add: frame_refl)
next
  case (Cons d ds)
  let ?s1 = "s\<lparr>filteredFiles := set_delete d (filteredFiles s),
                depencencyOwners := AList.delete d (depencencyOwners s)\<rparr>"
  have "frame s ?s1" "set (filteredFiles ?s1) \<subseteq> set (filteredFiles s)"
    by (auto simp: frame_def set_delete_def)
  with Cons.IH [of ?s1] show ?case
    by (auto intro: frame_trans)
qed

lemma unfilter_owner_frame:
  "frame s (unfilter_owner ownr s) \<and>
   set (filteredFiles (unfilter_owner ownr s)) \<subseteq> set (filteredFiles s)"
proof -
  let ?s1 = "(case map_of (ownerDependencies s) ownr of
                None \<Rightarrow> s
              | Some a \<Rightarrow> unfilter_dependencies (deref (dep_sets s) a) s)"
  have a: "frame s ?s1 \<and> set (filteredFiles ?s1) \<subseteq> set (filteredFiles s)"
    using unfilter_dependencies_frame [of s] by (auto simp: frame_refl split: option.splits)
  then show ?thesis
    by (auto simp: unfilter_owner_def Let_def frame_def set_delete_def)
qed

lemma unfilterFilesOwnedBy_frame:
  "frame s (unfilterFilesOwnedBy os s) \<and>
   set (filteredFiles (unfilterFilesOwnedBy os s)) \<subseteq> set (filteredFiles s)"
proof (induction os arbitrary: s)
  case Nil
  show ?case by (simp add: frame_refl)
next
  case (Cons ownr os)
  from Cons.IH [of "unfilter_owner ownr s"] unfilter_owner_frame [of s ownr]
  show ?case by (auto intro: frame_trans)
qed

lemma fold_unwatch_frame:
  "frame s (fold unwatch ws s) \<and> upstream (fold unwatch ws s) = upstream s"
proof (induction ws arbitrary: s)
  case Nil
  show ?case by (simp add: frame_refl)
next
  case (Cons w ws)
  have "frame s (unwatch w s)" "upstream (unwatch w s) = upstream s"
    by (simp_all add: frame_def unwatch_def)
  with Cons.IH [of "unwatch w s"] show ?case by (auto intro: frame_trans)
qed

lemma clear_frame: "frame s (clear s)"
  using fold_unwatch_frame [of s "map snd (watchers s)"] by (simp add: clear_def frame_def)

lemma clearFileFilters_frame: "frame s (clearFileFilters s)"
  by (simp add: clearFileFilters_def frame_def)

lemma setupIPC_quiet:
  "same_throttle s (setupIPC c s) \<and> same_graph s (setupIPC c s) \<and>
   wantsPassthroughIPC (setupIPC c s) = wantsPassthroughIPC s"
  by (simp add: setupIPC_def set_child_def Let_def same_throttle_def same_graph_def)

lemma watchChildProcessModules_quiet:
  "same_throttle s (watchChildProcessModules c key s) \<and>
   same_graph s (watchChildProcessModules c key s)"
  using setupIPC_quiet [of s c]
  by (simp add: watchChildProcessModules_def set_child_def Let_def same_throttle_def same_graph_def)

lemma destroyIPC_quiet:
  "same_throttle s (snd (destroyIPC c s)) \<and> same_graph s (snd (destroyIPC c s))"
  by (simp add: destroyIPC_def set_child_def Let_def same_throttle_def same_graph_def
      split: option.splits prod.splits)

section \<open>Filter mode needs a registration\<close>

lemma filterFile_filtered:
  "set (filteredFiles (snd (filterFile env f ownr s))) \<subseteq> insert f (set (filteredFiles s))"
proof -
  obtain r1 s1 where w: "filter_watch env f s = (r1, s1)" by (cases "filter_watch env f s")
  with filter_watch_frame [of s env f] have "filteredFiles s1 = filteredFiles s"
    by (simp add: same_graph_def)
  then show ?thesis
    by (auto simp: filterFile_alt w Let_def set_add_def split: option.splits if_splits)
qed

lemma forEach_require_filtered:
  "set (filteredFiles (snd (forEach_require env key files s))) \<subseteq> set files \<union> set (filteredFiles s)"
proof (induction files arbitrary: s)
  case Nil
  show ?case by simp
next
  case (Cons f files)
  obtain r1 s1 where f: "filterFile env f key s = (r1, s1)" by (cases "filterFile env f key s")
  with filterFile_filtered [of env f key s]
  have "set (filteredFiles s1) \<subseteq> insert f (set (filteredFiles s))" by simp
  with Cons.IH [of s1] show ?case
    by (cases r1) (auto simp: f)
qed

lemma forEach_import_filtered:
  "set (filteredFiles (snd (forEach_import env key urls s)))
     \<subseteq> set (url_paths env urls) \<union> set (filteredFiles s)"
proof (induction urls arbitrary: s)
  case Nil
  show ?case by simp
next
  case (Cons u urls)
  show ?case
  proof (cases "fileURLToPath env u")
    case (Inl e)
    then show ?thesis by simp
  next
    case (Inr p)
    obtain r1 s1 where f: "filterFile env p key s = (r1, s1)" by (cases "filterFile env p key s")
    with filterFile_filtered [of env p key s]
    have "set (filteredFiles s1) \<subseteq> insert p (set (filteredFiles s))" by simp
    with Cons.IH [of s1] show ?thesis
      by (cases r1) (auto simp: Inr f)
  qed
qed

lemma message_lists_filtered:
  "set (filteredFiles (snd (message_lists env key m s)))
     \<subseteq> set (message_files env m) \<union> set (filteredFiles s)"
proof (cases m)
  case MUndefined
  then show ?thesis by (simp add: message_lists_def)
next
  case MNull
  then show ?thesis by (simp add: message_lists_def)
next
  case (MValue req imp)
  let ?a = "(case req of None \<Rightarrow> (None, s) | Some files \<Rightarrow> forEach_require env key files s)"
  obtain r1 s1 where a: "?a = (r1, s1)" by (cases ?a)
  have f1: "set (filteredFiles s1) \<subseteq> set (case req of None \<Rightarrow> [] | Some files \<Rightarrow> files) \<union> set (filteredFiles s)"
  proof (cases req)
    case None
    with a show ?thesis by auto
  next
    case (Some files)
    with a forEach_require_filtered [of env key files s] show ?thesis by simp
  qed
  let ?b = "(case imp of None \<Rightarrow> (None, s1) | Some urls \<Rightarrow> forEach_import env key urls s1)"
  have f2: "set (filteredFiles (snd ?b)) \<subseteq> set (case imp of None \<Rightarrow> [] | Some urls \<Rightarrow> url_paths env urls) \<union> set (filteredFiles s1)"
  proof (cases imp)
    case None
    then show ?thesis by simp
  next
    case (Some urls)
    with forEach_import_filtered [of env key urls s1] show ?thesis by simp
  qed
  from f1 f2 show ?thesis
    by (cases r1) (auto simp: message_lists_def MValue a)
qed

lemma on_child_message_filtered:
  "set (filteredFiles (snd (on_child_message env key m s)))
     \<subseteq> set (message_files env m) \<union> set (filteredFiles s)"
proof -
  obtain r2 s2 where a: "message_lists env key m s = (r2, s2)" by (cases "message_lists env key m s")
  with message_lists_filtered [of env key m s]
  have "set (filteredFiles s2) \<subseteq> set (message_files env m) \<union> set (filteredFiles s)" by simp
  then show ?thesis
    by (cases r2) (auto simp: on_child_message_snd message_try_alt a)
qed

lemma step_filtered:
  "set (filteredFiles (step env x s)) \<subseteq> fst ` set (registrations env x) \<union> set (filteredFiles s)"
proof (cases x)
  case (WatchPath p r)
  with watchPath_frame [of s env p r] show ?thesis by (simp add: same_graph_def)
next
  case (FilterFile f ownr)
  with filterFile_filtered [of env f ownr s] show ?thesis by auto
next
  case (UnfilterFilesOwnedBy os)
  with unfilterFilesOwnedBy_frame [of s os] show ?thesis by auto
next
  case ClearFileFilters
  then show ?thesis by (simp add: clearFileFilters_def)
next
  case Clear
  then show ?thesis by (simp add: clear_def)
next
  case (WatchChildProcessModules c key)
  with watchChildProcessModules_quiet [of s c key] show ?thesis by (simp add: same_graph_def)
next
  case (DestroyIPC c)
  with destroyIPC_quiet [of s c] show ?thesis by (simp add: same_graph_def)
next
  case (ChildMessage key m)
  with on_child_message_filtered [of env key m s] show ?thesis by (auto simp: image_iff)
next
  case (RawChange t)
  then show ?thesis by (simp add: onChange_def)
next
  case (TimerFires i)
  then show ?thesis by (simp add: timer_fires_def)
next
  case (Tick dt)
  then show ?thesis by (simp add: tick_def)
qed

lemma run_filtered:
  "set (filteredFiles (run env ops s))
     \<subseteq> fst ` set (all_registrations env ops) \<union> set (filteredFiles s)"
proof (induction ops arbitrary: s)
  case Nil
  show ?case by simp
next
  case (Cons x ops)
  have "all_registrations env (x # ops) = registrations env x @ all_registrations env ops"
    by (simp add: all_registrations_def)
  with Cons.IH [of "step env x s"] step_filtered [of env x s]
  show ?case by (simp add: image_Un) blast
qed

lemma step_mode: "mode (step env x s) = mode s"
proof (cases x)
  case (WatchPath p r)
  with watchPath_frame [of s env p r] show ?thesis by (simp add: frame_def)
next
  case (FilterFile f ownr)
  with filterFile_frame [of s env f ownr] show ?thesis by (simp add: frame_def)
next
  case (UnfilterFilesOwnedBy os)
  with unfilterFilesOwnedBy_frame [of s os] show ?thesis by (simp add: frame_def)
next
  case ClearFileFilters
  then show ?thesis by (simp add: clearFileFilters_def)
next
  case Clear
  with clear_frame [of s] show ?thesis by (simp add: frame_def)
next
  case (WatchChildProcessModules c key)
  with watchChildProcessModules_quiet [of s c key] show ?thesis by (simp add: same_throttle_def)
next
  case (DestroyIPC c)
  with destroyIPC_quiet [of s c] show ?thesis by (simp add: same_throttle_def)
next
  case (ChildMessage key m)
  with message_try_frame [of s env key m] show ?thesis
    by (simp add: on_child_message_snd frame_def)
next
  case (RawChange t)
  then show ?thesis by (simp add: onChange_def)
next
  case (TimerFires i)
  then show ?thesis by (simp add: timer_fires_def)
next
  case (Tick dt)
  then show ?thesis by (simp add: tick_def)
qed

lemma run_mode: "mode (run env ops s) = mode s"
  by (induction ops arbitrary: s) (simp_all add: step_mode)

text \<open>
  C8.  In filter mode: after any run of calls and events from the constructor in which
  no \<open>filterFile\<close> call, direct or made by the child-message handler, has \<open>t\<close> as
  its file, a notification for \<open>t\<close> emits nothing.  In all mode: a notification whose
  trigger is not throttled emits exactly one \<open>changed\<close> event, with the owners of the
  trigger.
\<close>

theorem C8_filter_mode_and_all_mode:
  "(FilesWatcher_new env thr ''filter'' = Inr s0 \<and> t \<notin> fst ` set (all_registrations env ops) \<longrightarrow>
      emitted (onChange t (run env ops s0)) = emitted (run env ops s0)) \<and>
   (mode s = All \<and> \<not> set_has t (throttling s) \<longrightarrow>
      emitted (onChange t s) =
        emitted s @ [\<lparr>ev_time = clock s, ev_trigger = t,
                      ev_owners = map_of (depencencyOwners s) t\<rparr>])"
proof (intro conjI impI)
  assume a: "FilesWatcher_new env thr ''filter'' = Inr s0 \<and>
             t \<notin> fst ` set (all_registrations env ops)"
  then have s0: "mode s0 = Filter" "filteredFiles s0 = []"
    by (auto simp: FilesWatcher_new_def initial_def split: if_splits)
  from run_filtered [of env ops s0] a s0 have "t \<notin> set (filteredFiles (run env ops s0))"
    by auto
  moreover have "mode (run env ops s0) = Filter" by (simp add: run_mode s0)
  ultimately show "emitted (onChange t (run env ops s0)) = emitted (run env ops s0)"
    by (simp add: onChange_def set_has_def)
next
  assume "mode s = All \<and> \<not> set_has t (throttling s)"
  then show "emitted (onChange t s) =
        emitted s @ [\<lparr>ev_time = clock s, ev_trigger = t,
                      ev_owners = map_of (depencencyOwners s) t\<rparr>]"
    by (simp add: onChange_def)
qed

theorem C8_filter_mode_and_all_mode_witness:
  "FilesWatcher_new darwin 500 ''filter'' = Inr (initial darwin 500 Filter) \<and>
   JStr ''/a/x.js'' \<notin> fst ` set (all_registrations darwin other_file_ops) \<and>
   emitted (onChange (JStr ''/a/x.js'') (run darwin other_file_ops (initial darwin 500 Filter))) =
     emitted (run darwin other_file_ops (initial darwin 500 Filter)) \<and>
   mode (initial darwin 500 All) = All \<and>
   \<not> set_has (JStr ''/a/x.js'') (throttling (initial darwin 500 All)) \<and>
   emitted (onChange (JStr ''/a/x.js'') (initial darwin 500 All)) =
     [\<lparr>ev_time = 0, ev_trigger = JStr ''/a/x.js'', ev_owners = None\<rparr>]"
  using C8_filter_mode_and_all_mode
    [of darwin 500 "initial darwin 500 Filter" "JStr ''/a/x.js''" other_file_ops
        "initial darwin 500 All"]
  by (simp add: FilesWatcher_new_def all_registrations_def other_file_ops_def set_has_def
      example_defs)

section \<open>The throttle\<close>

lemma separated_append:
  "separated d (xs @ ys) =
     (separated d xs \<and> separated d ys \<and>
      (\<forall>x\<in>set xs. \<forall>y\<in>set ys. ev_trigger y = ev_trigger x \<longrightarrow> ev_time x + d \<le> ev_time y))"
  by (induction xs) auto

lemma step_same_throttle:
  "(\<forall>t. x \<noteq> RawChange t) \<Longrightarrow> (\<forall>i. x \<noteq> TimerFires i) \<Longrightarrow> (\<forall>dt. x \<noteq> Tick dt) \<Longrightarrow>
   same_throttle s (step env x s)"
proof (cases x)
  case (WatchPath p r)
  with watchPath_frame [of s env p r] show ?thesis by (simp add: frame_same_throttle)
next
  case (FilterFile f ownr)
  with filterFile_frame [of s env f ownr] show ?thesis by (simp add: frame_same_throttle)
next
  case (UnfilterFilesOwnedBy os)
  with unfilterFilesOwnedBy_frame [of s os] show ?thesis by (simp add: frame_same_throttle)
next
  case ClearFileFilters
  with clearFileFilters_frame [of s] show ?thesis by (simp add: frame_same_throttle)
next
  case Clear
  with clear_frame [of s] show ?thesis by (simp add: frame_same_throttle)
next
  case (WatchChildProcessModules c key)
  with watchChildProcessModules_quiet [of s c key] show ?thesis by simp
next
  case (DestroyIPC c)
  with destroyIPC_quiet [of s c] show ?thesis by simp
next
  case (ChildMessage key m)
  with message_try_frame [of s env key m] show ?thesis
    by (simp add: on_child_message_snd frame_same_throttle)
qed simp_all

lemma throttle_inv_same: "same_throttle s s' \<Longrightarrow> throttle_inv s \<Longrightarrow> throttle_inv s'"
  by (simp add: same_throttle_def throttle_inv_def)

lemma throttle_inv_initial: "throttle_inv (initial env thr m)"
  by (simp add: throttle_inv_def initial_def)

lemma throttle_inv_tick: "throttle_inv s \<Longrightarrow> throttle_inv (tick dt s)"
  unfolding throttle_inv_def tick_def by (auto simp: trans_le_add1)

lemma throttle_inv_onChange:
  assumes "throttle_inv s"
  shows "throttle_inv (onChange t s)"
proof (cases "set_has t (throttling s) \<or> (mode s = Filter \<and> \<not> set_has t (filteredFiles s))")
  case True
  with assms show ?thesis by (auto simp: onChange_def)
next
  case False
  then have nt: "t \<notin> set (throttling s)" by (simp add: set_has_def)
  let ?e = "\<lparr>ev_time = clock s, ev_trigger = t, ev_owners = map_of (depencencyOwners s) t\<rparr>"
  let ?s' = "s\<lparr>throttling := set_add t (throttling s), emitted := emitted s @ [?e],
               timers := timers s @ [(clock s + throttle s, t)]\<rparr>"
  have eq: "onChange t s = ?s'" using False by (auto simp: onChange_def)
  from assms have i1: "\<forall>e\<in>set (emitted s). ev_time e \<le> clock s"
    and i2: "\<forall>e\<in>set (emitted s). ev_trigger e \<in> set (throttling s) \<or> ev_time e + throttle s \<le> clock s"
    and i3: "\<forall>(due, p)\<in>set (timers s). p \<in> set (throttling s)"
    and i4: "distinct (map snd (timers s))"
    and i5: "\<forall>(due, p)\<in>set (timers s). \<forall>e\<in>set (emitted s).
               ev_trigger e = p \<longrightarrow> ev_time e + throttle s \<le> due"
    and i6: "separated (throttle s) (emitted s)"
    by (simp_all add: throttle_inv_def)
  have old: "\<forall>e\<in>set (emitted s). ev_trigger e = t \<longrightarrow> ev_time e + throttle s \<le> clock s"
    using i2 nt by auto
  have nt_timer: "t \<notin> snd ` set (timers s)" using i3 nt by auto
  have th: "set (set_add t (throttling s)) = insert t (set (throttling s))"
    by (auto simp: set_add_def)
  have j1: "\<forall>e\<in>set (emitted ?s'). ev_time e \<le> clock ?s'" using i1 by simp
  have j2: "\<forall>e\<in>set (emitted ?s'). ev_trigger e \<in> set (throttling ?s') \<or>
              ev_time e + throttle ?s' \<le> clock ?s'"
    using i2 by (auto simp: th)
  have j3: "\<forall>(due, p)\<in>set (timers ?s'). p \<in> set (throttling ?s')"
    using i3 by (auto simp: th)
  have j4: "distinct (map snd (timers ?s'))" using i4 nt_timer by simp
  have j5': "ev_time e + throttle ?s' \<le> due"
    if tm: "(due, p) \<in> set (timers ?s')" and e: "e \<in> set (emitted ?s')"
      and tr: "ev_trigger e = p" for due p e
  proof (cases "(due, p) \<in> set (timers s)")
    case True
    with nt_timer have "p \<noteq> t" by force
    with e tr have "e \<in> set (emitted s)" by auto
    with i5 True tr show ?thesis by auto
  next
    case False
    with tm have d: "due = clock s + throttle s" "p = t" by auto
    show ?thesis
    proof (cases "e \<in> set (emitted s)")
      case True
      with old tr d have "ev_time e + throttle s \<le> clock s" by auto
      with d show ?thesis by simp
    next
      case False
      with e have "e = ?e" by auto
      with d show ?thesis by simp
    qed
  qed
  have j5: "\<forall>(due, p)\<in>set (timers ?s'). \<forall>e\<in>set (emitted ?s').
               ev_trigger e = p \<longrightarrow> ev_time e + throttle ?s' \<le> due"
    using j5' by blast
  have j6: "separated (throttle ?s') (emitted ?s')"
    using i6 old by (auto simp: separated_append)
  from j1 j2 j3 j4 j5 j6 show ?thesis unfolding eq throttle_inv_def by blast
qed

lemma distinct_snd_take_drop:
  "distinct (map snd xs) \<Longrightarrow> i < length xs \<Longrightarrow>
   distinct (map snd (take i xs @ drop (Suc i) xs)) \<and>
   snd (xs ! i) \<notin> snd ` set (take i xs @ drop (Suc i) xs)"
proof -
  assume d: "distinct (map snd xs)" and i: "i < length xs"
  have "xs = take i xs @ xs ! i # drop (Suc i) xs" using i by (simp add: id_take_nth_drop)
  then have "map snd xs = map snd (take i xs) @ snd (xs ! i) # map snd (drop (Suc i) xs)"
    by (metis list.simps(9) map_append)
  with d have "distinct (map snd (take i xs) @ snd (xs ! i) # map snd (drop (Suc i) xs))"
    by simp
  then show ?thesis by auto
qed

lemma throttle_inv_timer_fires:
  assumes "throttle_inv s"
  shows "throttle_inv (timer_fires i s)"
proof (cases "i < length (timers s) \<and> fst (timers s ! i) \<le> clock s")
  case False
  with assms show ?thesis by (auto simp: timer_fires_def)
next
  case True
  obtain due p where tm: "timers s ! i = (due, p)" by (cases "timers s ! i")
  let ?ts = "take i (timers s) @ drop (Suc i) (timers s)"
  let ?s' = "s\<lparr>throttling := set_delete p (throttling s), timers := ?ts\<rparr>"
  have eq: "timer_fires i s = ?s'" using True tm by (simp add: timer_fires_def)
  from assms have i1: "\<forall>e\<in>set (emitted s). ev_time e \<le> clock s"
    and i2: "\<forall>e\<in>set (emitted s). ev_trigger e \<in> set (throttling s) \<or> ev_time e + throttle s \<le> clock s"
    and i3: "\<forall>(due, p)\<in>set (timers s). p \<in> set (throttling s)"
    and i4: "distinct (map snd (timers s))"
    and i5: "\<forall>(due, p)\<in>set (timers s). \<forall>e\<in>set (emitted s).
               ev_trigger e = p \<longrightarrow> ev_time e + throttle s \<le> due"
    and i6: "separated (throttle s) (emitted s)"
    by (simp_all add: throttle_inv_def)
  have mem: "(due, p) \<in> set (timers s)" using True tm by (metis nth_mem)
  have sub: "set ?ts \<subseteq> set (timers s)"
    by (auto dest: in_set_takeD in_set_dropD)
  from distinct_snd_take_drop [OF i4, of i] True tm
  have d': "distinct (map snd ?ts)" and np: "p \<notin> snd ` set ?ts" by simp_all
  have due: "due \<le> clock s" using True tm by simp
  have j2: "\<forall>e\<in>set (emitted ?s'). ev_trigger e \<in> set (throttling ?s') \<or>
              ev_time e + throttle ?s' \<le> clock ?s'"
  proof
    fix e assume e: "e \<in> set (emitted ?s')"
    show "ev_trigger e \<in> set (throttling ?s') \<or> ev_time e + throttle ?s' \<le> clock ?s'"
    proof (cases "ev_trigger e = p")
      case True
      with i5 mem e have "ev_time e + throttle s \<le> due" by auto
      with due show ?thesis by simp
    next
      case False
      with i2 e show ?thesis by (auto simp: set_delete_def)
    qed
  qed
  have j3': "q \<in> set (throttling ?s')" if q: "(d, q) \<in> set (timers ?s')" for d q
  proof -
    from q have "q \<noteq> p" using np by force
    moreover from q sub i3 have "q \<in> set (throttling s)" by auto
    ultimately show ?thesis by (simp add: set_delete_def)
  qed
  have j3: "\<forall>(due, q)\<in>set (timers ?s'). q \<in> set (throttling ?s')"
    using j3' by blast
  have j5: "\<forall>(due, p)\<in>set (timers ?s'). \<forall>e\<in>set (emitted ?s').
               ev_trigger e = p \<longrightarrow> ev_time e + throttle ?s' \<le> due"
    using i5 sub by auto
  from i1 j2 j3 d' j5 i6 show ?thesis unfolding eq throttle_inv_def by simp
qed

lemma throttle_inv_step: "throttle_inv s \<Longrightarrow> throttle_inv (step env x s)"
proof (cases "(\<forall>t. x \<noteq> RawChange t) \<and> (\<forall>i. x \<noteq> TimerFires i) \<and> (\<forall>dt. x \<noteq> Tick dt)")
  case True
  assume "throttle_inv s"
  with True step_same_throttle [of x s env] show ?thesis by (blast intro: throttle_inv_same)
next
  case False
  assume "throttle_inv s"
  with False show ?thesis
    by (auto simp: throttle_inv_tick throttle_inv_onChange throttle_inv_timer_fires)
qed

lemma throttle_inv_run: "throttle_inv s \<Longrightarrow> throttle_inv (run env ops s)"
  by (induction ops arbitrary: s) (simp_all add: throttle_inv_step)


lemma step_emitted_append: "\<exists>es. emitted (step env x s) = emitted s @ es"
proof (cases "(\<forall>t. x \<noteq> RawChange t) \<and> (\<forall>i. x \<noteq> TimerFires i) \<and> (\<forall>dt. x \<noteq> Tick dt)")
  case True
  with step_same_throttle [of x s env] show ?thesis by (simp add: same_throttle_def)
next
  case False
  then show ?thesis by (auto simp: onChange_def timer_fires_def tick_def)
qed

lemma step_clock_mono: "clock s \<le> clock (step env x s)"
proof (cases "(\<forall>t. x \<noteq> RawChange t) \<and> (\<forall>i. x \<noteq> TimerFires i) \<and> (\<forall>dt. x \<noteq> Tick dt)")
  case True
  with step_same_throttle [of x s env] show ?thesis by (simp add: same_throttle_def)
next
  case False
  then show ?thesis by (auto simp: onChange_def timer_fires_def tick_def)
qed

lemma step_throttle: "throttle (step env x s) = throttle s"
proof (cases "(\<forall>t. x \<noteq> RawChange t) \<and> (\<forall>i. x \<noteq> TimerFires i) \<and> (\<forall>dt. x \<noteq> Tick dt)")
  case True
  with step_same_throttle [of x s env] show ?thesis by (simp add: same_throttle_def)
next
  case False
  then show ?thesis by (auto simp: onChange_def timer_fires_def tick_def)
qed

lemma run_emitted_append: "\<exists>es. emitted (run env ops s) = emitted s @ es"
proof (induction ops arbitrary: s)
  case Nil
  show ?case by simp
next
  case (Cons x ops)
  from step_emitted_append [of env x s] obtain es1 where "emitted (step env x s) = emitted s @ es1" ..
  moreover from Cons.IH [of "step env x s"] obtain es2
    where "emitted (run env ops (step env x s)) = emitted (step env x s) @ es2" ..
  ultimately show ?case by simp
qed

lemma run_clock_mono: "clock s \<le> clock (run env ops s)"
proof (induction ops arbitrary: s)
  case Nil
  show ?case by simp
next
  case (Cons x ops)
  from Cons.IH [of "step env x s"] step_clock_mono [of s env x] show ?case by simp
qed

lemma run_throttle: "throttle (run env ops s) = throttle s"
  by (induction ops arbitrary: s) (simp_all add: step_throttle)

lemma in_set_take_drop:
  assumes x: "x \<in> set xs" and i: "i < length xs" and n: "xs ! i \<noteq> x"
  shows "x \<in> set (take i xs @ drop (Suc i) xs)"
proof -
  from id_take_nth_drop [OF i]
  have "set xs = set (take i xs @ xs ! i # drop (Suc i) xs)" by (rule arg_cong)
  then have "set xs = insert (xs ! i) (set (take i xs) \<union> set (drop (Suc i) xs))"
    by simp
  with x have "x \<in> insert (xs ! i) (set (take i xs) \<union> set (drop (Suc i) xs))"
    by (rule subst [where P = "\<lambda>A. x \<in> A", rotated])
  with n show ?thesis by auto
qed

lemma step_keeps_timer:
  assumes "(due, p) \<in> set (timers s)" and "clock s < due"
  shows "(due, p) \<in> set (timers (step env x s))"
proof (cases "(\<forall>t. x \<noteq> RawChange t) \<and> (\<forall>i. x \<noteq> TimerFires i) \<and> (\<forall>dt. x \<noteq> Tick dt)")
  case True
  with step_same_throttle [of x s env] assms show ?thesis by (simp add: same_throttle_def)
next
  case False
  then consider t where "x = RawChange t" | i where "x = TimerFires i" | dt where "x = Tick dt"
    by blast
  then show ?thesis
  proof cases
    case 1
    with assms show ?thesis by (simp add: onChange_def)
  next
    case 2
    show ?thesis
    proof (cases "i < length (timers s) \<and> fst (timers s ! i) \<le> clock s")
      case True
      with assms(2) have "timers s ! i \<noteq> (due, p)" by auto
      with in_set_take_drop [OF assms(1), of i] True
      have "(due, p) \<in> set (take i (timers s) @ drop (Suc i) (timers s))" by blast
      with True 2 show ?thesis by (simp add: timer_fires_def)
    next
      case False
      with assms 2 show ?thesis by (auto simp: timer_fires_def)
    qed
  next
    case 3
    with assms show ?thesis by (simp add: tick_def)
  qed
qed

lemma run_keeps_timer:
  "(due, p) \<in> set (timers s) \<Longrightarrow> clock (run env ops s) < due \<Longrightarrow>
   (due, p) \<in> set (timers (run env ops s))"
proof (induction ops arbitrary: s)
  case Nil
  then show ?case by simp
next
  case (Cons x ops)
  from Cons.prems(2) run_clock_mono [of "step env x s" env ops] step_clock_mono [of s env x]
  have "clock s < due" by simp
  with Cons.prems(1) have "(due, p) \<in> set (timers (step env x s))" by (rule step_keeps_timer)
  with Cons.IH [of "step env x s"] Cons.prems(2) show ?case by simp
qed

lemma takeWhile_shorter: "\<exists>x\<in>set xs. \<not> P x \<Longrightarrow> length (takeWhile P xs) < length xs"
  by (induction xs) auto

lemma onChange_clock: "clock (onChange t s) = clock s"
  by (simp add: onChange_def)

lemma timer_for_index:
  assumes "(due, t) \<in> set (timers s)" and "distinct (map snd (timers s))"
  shows "timer_for t s < length (timers s) \<and> timers s ! timer_for t s = (due, t)"
proof -
  let ?P = "\<lambda>x. snd x \<noteq> t"
  from assms(1) have ex: "\<exists>x\<in>set (timers s). \<not> ?P x" by force
  then have len: "timer_for t s < length (timers s)"
    unfolding timer_for_def by (rule takeWhile_shorter)
  then have "\<not> ?P (timers s ! timer_for t s)"
    unfolding timer_for_def by (rule nth_length_takeWhile)
  then have sn: "snd (timers s ! timer_for t s) = t" by simp
  from assms(2) have "inj_on snd (set (timers s))" by (simp add: distinct_map)
  moreover from len have "timers s ! timer_for t s \<in> set (timers s)" by simp
  ultimately have "timers s ! timer_for t s = (due, t)"
    using assms(1) sn inj_onD [of snd "set (timers s)" "timers s ! timer_for t s" "(due, t)"]
    by simp
  with len show ?thesis by simp
qed

lemma events_for_none:
  "\<forall>e\<in>set es. ev_trigger e \<noteq> t \<Longrightarrow> events_for t es = []"
  by (simp add: events_for_def)

lemma throttle_window:
  assumes inv: "throttle_inv s"
    and nt: "\<not> set_has t (throttling s)"
    and pass: "mode s = All \<or> set_has t (filteredFiles s)"
    and within: "clock (run env mid (onChange t s)) < clock s + throttle s"
  shows "events_for t (emitted (onChange t (run env mid (onChange t s)))) =
           events_for t (emitted s) @
             [\<lparr>ev_time = clock s, ev_trigger = t, ev_owners = map_of (depencencyOwners s) t\<rparr>]"
    and "(clock s + throttle s, t) \<in> set (timers (onChange t (run env mid (onChange t s))))"
proof -
  let ?e1 = "\<lparr>ev_time = clock s, ev_trigger = t, ev_owners = map_of (depencencyOwners s) t\<rparr>"
  let ?s1 = "onChange t s"
  let ?m = "run env mid ?s1"
  let ?s2 = "onChange t ?m"
  from nt pass have s1: "emitted ?s1 = emitted s @ [?e1]"
    "timers ?s1 = timers s @ [(clock s + throttle s, t)]" "throttle ?s1 = throttle s"
    by (auto simp: onChange_def)
  from run_emitted_append [of env mid ?s1] obtain es where es: "emitted ?m = emitted ?s1 @ es" ..
  from step_emitted_append [of env "RawChange t" ?m] obtain es'
    where es': "emitted ?s2 = emitted ?m @ es'" by auto
  have em: "emitted ?s2 = (emitted s @ [?e1]) @ (es @ es')" by (simp add: es es' s1)
  have clk: "clock ?s2 = clock ?m" by (rule onChange_clock)
  have thr: "throttle ?s2 = throttle s"
    using step_throttle [of env "RawChange t" ?m] run_throttle [of env mid ?s1] s1(3) by simp
  have "throttle_inv ?s2"
    by (intro throttle_inv_onChange throttle_inv_run inv)
  then have sep: "separated (throttle s) (emitted ?s2)"
    and past: "\<forall>e\<in>set (emitted ?s2). ev_time e \<le> clock ?s2"
    by (simp_all add: throttle_inv_def thr)
  have "ev_trigger e \<noteq> t" if e: "e \<in> set (es @ es')" for e
  proof
    assume "ev_trigger e = t"
    with sep e have "ev_time ?e1 + throttle s \<le> ev_time e"
      unfolding em separated_append by auto
    moreover from past e have "ev_time e \<le> clock ?s2" unfolding em by auto
    ultimately show False using within clk by simp
  qed
  then have "events_for t (es @ es') = []" by (intro events_for_none) blast
  then show "events_for t (emitted ?s2) = events_for t (emitted s) @ [?e1]"
    unfolding em by (simp add: events_for_def)
  have "(clock s + throttle s, t) \<in> set (timers ?s1)" by (simp add: s1)
  then have "(clock s + throttle s, t) \<in> set (timers ?m)"
    using within by (rule run_keeps_timer)
  then show "(clock s + throttle s, t) \<in> set (timers ?s2)"
    by (simp add: onChange_def)
qed

lemma after_window:
  assumes inv: "throttle_inv s2"
    and tm: "(due, t) \<in> set (timers s2)"
    and late: "due \<le> clock s2 + dt"
    and pass: "mode s2 = All \<or> set_has t (filteredFiles s2)"
  shows "emitted (onChange t (timer_fires (timer_for t (tick dt s2)) (tick dt s2))) =
           emitted s2 @
             [\<lparr>ev_time = clock s2 + dt, ev_trigger = t,
               ev_owners = map_of (depencencyOwners s2) t\<rparr>]"
proof -
  let ?s3 = "tick dt s2"
  let ?i = "timer_for t ?s3"
  have "throttle_inv ?s3" using inv by (rule throttle_inv_tick)
  then have d: "distinct (map snd (timers ?s3))" by (simp add: throttle_inv_def)
  have "(due, t) \<in> set (timers ?s3)" using tm by (simp add: tick_def)
  from timer_for_index [OF this d]
  have i: "?i < length (timers ?s3)" "timers ?s3 ! ?i = (due, t)" by simp_all
  have c3: "clock ?s3 = clock s2 + dt" by (simp add: tick_def)
  let ?s4 = "timer_fires ?i ?s3"
  have s4: "?s4 = ?s3\<lparr>throttling := set_delete t (throttling ?s3),
                       timers := take ?i (timers ?s3) @ drop (Suc ?i) (timers ?s3)\<rparr>"
    using i late c3 by (simp add: timer_fires_def)
  have nt: "\<not> set_has t (throttling ?s4)"
    by (subst s4) (simp add: set_has_def set_delete_def)
  have same: "mode ?s4 = mode s2" "filteredFiles ?s4 = filteredFiles s2"
    "emitted ?s4 = emitted s2" "clock ?s4 = clock s2 + dt"
    "depencencyOwners ?s4 = depencencyOwners s2"
    by (subst s4, simp add: tick_def)+
  from nt pass same show ?thesis by (auto simp: onChange_def)
qed

text \<open>
  C7.  Time is the clock of the event loop; a pending timer runs no sooner than its
  delay after it was set.  For every run from the constructor: (1) the events emitted
  for one trigger are separated by at least the throttle delay; (2) when a notification
  for an unthrottled trigger \<open>t\<close> that passes the filter is followed, after any calls
  and events, by a second one before the delay has passed, the two yield exactly one
  event for \<open>t\<close>; (3) once the delay has passed and the timer of \<open>t\<close> has run, a third
  notification for \<open>t\<close> (still passing the filter) yields the second event for \<open>t\<close>.
\<close>

theorem C7_throttle_window:
  assumes "FilesWatcher_new env thr md = Inr s0"
  shows "separated (throttle s0) (emitted (run env ops s0)) \<and>
    (let s = run env ops s0;
         e1 = \<lparr>ev_time = clock s, ev_trigger = t, ev_owners = map_of (depencencyOwners s) t\<rparr>;
         s2 = onChange t (run env mid (onChange t s));
         s3 = tick dt s2;
         e2 = \<lparr>ev_time = clock s3, ev_trigger = t, ev_owners = map_of (depencencyOwners s2) t\<rparr>
     in \<not> set_has t (throttling s) \<and> (mode s = All \<or> set_has t (filteredFiles s)) \<and>
        clock s2 < clock s + throttle s \<longrightarrow>
          events_for t (emitted s2) = events_for t (emitted s) @ [e1] \<and>
          (clock s + throttle s \<le> clock s3 \<and> (mode s = All \<or> set_has t (filteredFiles s2)) \<longrightarrow>
             events_for t (emitted (onChange t (timer_fires (timer_for t s3) s3))) =
               events_for t (emitted s) @ [e1, e2]))"
proof -
  let ?s = "run env ops s0"
  let ?s2 = "onChange t (run env mid (onChange t ?s))"
  from assms obtain m where s0: "s0 = initial env (nat thr) m"
    by (auto simp: FilesWatcher_new_def split: if_splits)
  have inv: "throttle_inv ?s" unfolding s0 by (intro throttle_inv_run throttle_inv_initial)
  then have A: "separated (throttle s0) (emitted ?s)"
    by (simp add: throttle_inv_def run_throttle)
  have B: "events_for t (emitted ?s2) =
             events_for t (emitted ?s) @
               [\<lparr>ev_time = clock ?s, ev_trigger = t, ev_owners = map_of (depencencyOwners ?s) t\<rparr>] \<and>
           (clock ?s + throttle ?s \<le> clock (tick dt ?s2) \<and>
              (mode ?s = All \<or> set_has t (filteredFiles ?s2)) \<longrightarrow>
            events_for t (emitted (onChange t (timer_fires (timer_for t (tick dt ?s2)) (tick dt ?s2)))) =
              events_for t (emitted ?s) @
                [\<lparr>ev_time = clock ?s, ev_trigger = t, ev_owners = map_of (depencencyOwners ?s) t\<rparr>,
                 \<lparr>ev_time = clock (tick dt ?s2), ev_trigger = t,
                   ev_owners = map_of (depencencyOwners ?s2) t\<rparr>])"
    if nt: "\<not> set_has t (throttling ?s)"
      and pass: "mode ?s = All \<or> set_has t (filteredFiles ?s)"
      and within: "clock ?s2 < clock ?s + throttle ?s"
  proof -
    have w: "clock (run env mid (onChange t ?s)) < clock ?s + throttle ?s"
      using within by (simp only: onChange_clock)
    note tw = throttle_window [OF inv nt pass w]
    have inv2: "throttle_inv ?s2"
      by (intro throttle_inv_onChange throttle_inv_run inv)
    have md: "mode ?s2 = mode ?s"
      using step_mode [of env "RawChange t"] by (simp add: run_mode)
    have c3: "clock (tick dt ?s2) = clock ?s2 + dt" by (simp add: tick_def)
    have "events_for t (emitted (onChange t (timer_fires (timer_for t (tick dt ?s2)) (tick dt ?s2)))) =
              events_for t (emitted ?s) @
                [\<lparr>ev_time = clock ?s, ev_trigger = t, ev_owners = map_of (depencencyOwners ?s) t\<rparr>,
                 \<lparr>ev_time = clock (tick dt ?s2), ev_trigger = t,
                   ev_owners = map_of (depencencyOwners ?s2) t\<rparr>]"
      if late: "clock ?s + throttle ?s \<le> clock (tick dt ?s2)"
        and pass2: "mode ?s = All \<or> set_has t (filteredFiles ?s2)"
    proof -
      from late have l: "clock ?s + throttle ?s \<le> clock ?s2 + dt" by (simp add: c3)
      from pass2 md have p: "mode ?s2 = All \<or> set_has t (filteredFiles ?s2)" by simp
      from after_window [OF inv2 tw(2) l p] tw(1) show ?thesis
        by (simp add: events_for_def c3)
    qed
    with tw(1) show ?thesis by blast
  qed
  from A B show ?thesis unfolding Let_def by blast
qed

lemma throttle_example_fields:
  "mode throttle_example = Filter"
  "throttling throttle_example = []"
  "filteredFiles throttle_example = [JStr ''/a/b.js'']"
  "depencencyOwners throttle_example = [(JStr ''/a/b.js'', [JStr ''ownerX''])]"
  "emitted throttle_example = []"
  "timers throttle_example = []"
  "clock throttle_example = 0"
  "throttle throttle_example = 100"
  by (simp_all add: throttle_example_def example_defs method_defs)

lemma throttle_example_first:
  "onChange (JStr ''/a/b.js'') throttle_example =
     throttle_example
       \<lparr>throttling := [JStr ''/a/b.js''],
        emitted := [\<lparr>ev_time = 0, ev_trigger = JStr ''/a/b.js'',
                     ev_owners = Some [JStr ''ownerX'']\<rparr>],
        timers := [(100, JStr ''/a/b.js'')]\<rparr>"
  by (simp add: onChange_def throttle_example_fields set_has_def set_add_def)

lemma throttle_example_second:
  "onChange (JStr ''/a/b.js'')
     (run darwin [Tick 50] (onChange (JStr ''/a/b.js'') throttle_example)) =
   throttle_example
       \<lparr>throttling := [JStr ''/a/b.js''],
        emitted := [\<lparr>ev_time = 0, ev_trigger = JStr ''/a/b.js'',
                     ev_owners = Some [JStr ''ownerX'']\<rparr>],
        timers := [(100, JStr ''/a/b.js'')], clock := 50\<rparr>"
  unfolding throttle_example_first
  by (simp add: tick_def onChange_def throttle_example_fields set_has_def)

theorem C7_throttle_window_witness:
  "FilesWatcher_new darwin 100 ''filter'' = Inr (initial darwin 100 Filter) \<and>
   \<not> set_has (JStr ''/a/b.js'') (throttling throttle_example) \<and>
   set_has (JStr ''/a/b.js'') (filteredFiles throttle_example) \<and>
   separated 100 (emitted throttle_example) \<and>
   events_for (JStr ''/a/b.js'')
     (emitted (onChange (JStr ''/a/b.js'')
        (run darwin [Tick 50] (onChange (JStr ''/a/b.js'') throttle_example)))) =
     [\<lparr>ev_time = 0, ev_trigger = JStr ''/a/b.js'', ev_owners = Some [JStr ''ownerX'']\<rparr>] \<and>
   events_for (JStr ''/a/b.js'')
     (emitted (onChange (JStr ''/a/b.js'')
        (timer_fires 0 (tick 150 (onChange (JStr ''/a/b.js'')
          (run darwin [Tick 50] (onChange (JStr ''/a/b.js'') throttle_example))))))) =
     [\<lparr>ev_time = 0, ev_trigger = JStr ''/a/b.js'', ev_owners = Some [JStr ''ownerX'']\<rparr>,
      \<lparr>ev_time = 200, ev_trigger = JStr ''/a/b.js'', ev_owners = Some [JStr ''ownerX'']\<rparr>]"
proof -
  have new: "FilesWatcher_new darwin 100 ''filter'' = Inr (initial darwin 100 Filter)"
    by (simp add: FilesWatcher_new_def darwin_def)
  have t0: "throttle (initial darwin 100 Filter) = 100" by (simp add: initial_def)
  note c7 = C7_throttle_window
    [OF new, of "[FilterFile (JStr ''/a/b.js'') (JStr ''ownerX'')]" "JStr ''/a/b.js''"
       "[Tick 50]" 150,
     folded throttle_example_def, unfolded Let_def throttle_example_second t0]
  from c7 new show ?thesis
    by (simp add: throttle_example_fields set_has_def tick_def timer_for_def timer_fires_def
        onChange_def set_add_def set_delete_def events_for_def)
qed

section \<open>The owner graph\<close>

lemma graph_inv_same:
  "depencencyOwners s' = depencencyOwners s \<Longrightarrow> ownerDependencies s' = ownerDependencies s \<Longrightarrow>
   dep_sets s' = dep_sets s \<Longrightarrow> graph_inv regs s \<Longrightarrow> graph_inv regs s'"
  by (simp add: graph_inv_def file_owners_def owner_files_def)

lemma graph_inv_same_graph: "same_graph s s' \<Longrightarrow> graph_inv regs s \<Longrightarrow> graph_inv regs s'"
  by (rule graph_inv_same) (simp_all add: same_graph_def)

lemma deref_update:
  "set (deref h b) \<subseteq> set (deref (h[a := set_add f (deref h a)]) b)"
  by (auto simp: deref_def set_add_def nth_list_update)

lemma deref_append: "b < length h \<Longrightarrow> deref (h @ [x]) b = deref h b"
  by (simp add: deref_def nth_append)

lemma graph_inv_register:
  assumes inv: "graph_inv regs s"
    and one: "one_file_per_owner regs"
    and reg: "(f, ownr) \<in> set regs"
    and tf: "truthy f" and town: "truthy ownr"
  shows "graph_inv regs
           (s\<lparr>depencencyOwners :=
                 AList.update f
                   (set_add ownr (case map_of (depencencyOwners s) f of Some os \<Rightarrow> os | None \<Rightarrow> []))
                   (depencencyOwners s),
               dep_sets :=
                 (case map_of (ownerDependencies s) f of
                    Some a' \<Rightarrow> dep_sets s | None \<Rightarrow> dep_sets s @ [[]])
                 [(case map_of (ownerDependencies s) f of
                    Some a' \<Rightarrow> a' | None \<Rightarrow> length (dep_sets s)) :=
                  set_add f
                    (deref (case map_of (ownerDependencies s) f of
                              Some a' \<Rightarrow> dep_sets s | None \<Rightarrow> dep_sets s @ [[]])
                       (case map_of (ownerDependencies s) f of
                          Some a' \<Rightarrow> a' | None \<Rightarrow> length (dep_sets s)))],
               ownerDependencies :=
                 AList.update ownr
                   (case map_of (ownerDependencies s) f of
                      Some a' \<Rightarrow> a' | None \<Rightarrow> length (dep_sets s))
                   (ownerDependencies s)\<rparr>)"
    (is "graph_inv regs ?s'")
proof -
  let ?h = "case map_of (ownerDependencies s) f of
              Some a' \<Rightarrow> dep_sets s | None \<Rightarrow> dep_sets s @ [[]]"
  let ?a = "case map_of (ownerDependencies s) f of
              Some a' \<Rightarrow> a' | None \<Rightarrow> length (dep_sets s)"
  from inv have wf: "\<And>o' b. map_of (ownerDependencies s) o' = Some b \<Longrightarrow> b < length (dep_sets s)"
    and sym: "\<And>f' o'. o' \<in> set (file_owners s f') \<Longrightarrow>
                f' \<in> set (owner_files s o') \<and> (f', o') \<in> set regs \<and> truthy f' \<and> truthy o'"
    by (auto simp: graph_inv_def)
  have a: "?a < length ?h" using wf by (auto split: option.splits)
  have len: "length (dep_sets s) \<le> length ?h" by (auto split: option.splits)
  have ds: "dep_sets ?s' = ?h[?a := set_add f (deref ?h ?a)]" by simp
  have od: "map_of (ownerDependencies ?s') o' =
              (if o' = ownr then Some ?a else map_of (ownerDependencies s) o')" for o'
    by (simp add: update_conv')
  have fo: "file_owners ?s' f' =
              (if f' = f then set_add ownr (file_owners s f) else file_owners s f')" for f'
    by (simp add: file_owners_def update_conv')
  have old: "set (deref (dep_sets s) b) \<subseteq> set (deref (dep_sets ?s') b)"
    if "b < length (dep_sets s)" for b
  proof -
    have "deref ?h b = deref (dep_sets s) b" using that
      by (auto simp: deref_append split: option.splits)
    with deref_update [of ?h b ?a f] show ?thesis unfolding ds by simp
  qed
  have keep: "set (owner_files s o') \<subseteq> set (owner_files ?s' o')" if "o' \<noteq> ownr" for o'
  proof (cases "map_of (ownerDependencies s) o'")
    case None
    then show ?thesis by (simp add: owner_files_def)
  next
    case (Some b)
    with wf have "b < length (dep_sets s)" by simp
    from old [OF this] Some that show ?thesis
      unfolding owner_files_def od by simp
  qed
  have new: "f \<in> set (owner_files ?s' ownr)"
  proof -
    have "owner_files ?s' ownr = deref (dep_sets ?s') ?a"
      unfolding owner_files_def od by simp
    also have "\<dots> = set_add f (deref ?h ?a)"
      unfolding ds using a by (simp add: deref_def)
    finally show ?thesis by (simp add: set_add_def)
  qed
  have wf': "b < length (dep_sets ?s')" if "map_of (ownerDependencies ?s') o' = Some b" for o' b
  proof (cases "o' = ownr")
    case True
    with that od have "b = ?a" by simp
    with a show ?thesis unfolding ds by simp
  next
    case False
    with that od have "map_of (ownerDependencies s) o' = Some b" by simp
    with wf len show ?thesis unfolding ds by fastforce
  qed
  have sym': "f' \<in> set (owner_files ?s' o') \<and> (f', o') \<in> set regs \<and> truthy f' \<and> truthy o'"
    if mem: "o' \<in> set (file_owners ?s' f')" for f' o'
  proof (cases "o' \<in> set (file_owners s f')")
    case True
    note o = sym [OF True]
    show ?thesis
    proof (cases "o' = ownr")
      case False
      with keep o show ?thesis by blast
    next
      case True
      with o one reg tf town have "f' = f"
        unfolding one_file_per_owner_def by blast
      with True new o show ?thesis by simp
    qed
  next
    case False
    with mem have "f' = f" "o' = ownr"
      unfolding fo by (auto simp: set_add_def split: if_splits)
    with new reg tf town show ?thesis by simp
  qed
  from wf' sym' show ?thesis unfolding graph_inv_def by blast
qed

lemma graph_inv_filterFile:
  assumes "graph_inv regs s" and "one_file_per_owner regs" and "(f, ownr) \<in> set regs"
  shows "graph_inv regs (snd (filterFile env f ownr s))"
proof -
  obtain r1 s1 where w: "filter_watch env f s = (r1, s1)" by (cases "filter_watch env f s")
  with filter_watch_frame [of s env f] have sg: "same_graph s s1" by simp
  then have i1: "graph_inv regs s1" using assms(1) by (rule graph_inv_same_graph)
  let ?s2 = "s1\<lparr>filteredFiles := set_add f (filteredFiles s1)\<rparr>"
  have i2: "graph_inv regs ?s2" using i1 by (rule graph_inv_same [rotated 3]) simp_all
  show ?thesis
  proof (cases "truthy f \<and> r1 = None \<and> truthy ownr")
    case True
    from graph_inv_register [OF i2 assms(2,3)] True
    show ?thesis by (simp add: filterFile_alt w Let_def)
  next
    case False
    with assms(1) i1 i2 show ?thesis
      by (auto simp: filterFile_alt w Let_def split: option.splits)
  qed
qed

lemma graph_inv_forEach_require:
  "graph_inv regs s \<Longrightarrow> one_file_per_owner regs \<Longrightarrow> \<forall>f\<in>set files. (f, key) \<in> set regs \<Longrightarrow>
   graph_inv regs (snd (forEach_require env key files s))"
proof (induction files arbitrary: s)
  case Nil
  then show ?case by simp
next
  case (Cons f files)
  obtain r1 s1 where f: "filterFile env f key s = (r1, s1)" by (cases "filterFile env f key s")
  from graph_inv_filterFile [OF Cons.prems(1,2), of f key env] Cons.prems(3) f
  have "graph_inv regs s1" by simp
  with Cons.IH [of s1] Cons.prems show ?case
    by (cases r1) (simp_all add: f)
qed

lemma graph_inv_forEach_import:
  "graph_inv regs s \<Longrightarrow> one_file_per_owner regs \<Longrightarrow>
   \<forall>f\<in>set (url_paths env urls). (f, key) \<in> set regs \<Longrightarrow>
   graph_inv regs (snd (forEach_import env key urls s))"
proof (induction urls arbitrary: s)
  case Nil
  then show ?case by simp
next
  case (Cons u urls)
  show ?case
  proof (cases "fileURLToPath env u")
    case (Inl e)
    with Cons.prems(1) show ?thesis by simp
  next
    case (Inr p)
    obtain r1 s1 where f: "filterFile env p key s = (r1, s1)" by (cases "filterFile env p key s")
    from graph_inv_filterFile [OF Cons.prems(1,2), of p key env] Cons.prems(3) f Inr
    have "graph_inv regs s1" by simp
    with Cons.IH [of s1] Cons.prems Inr show ?thesis
      by (cases r1) (simp_all add: f)
  qed
qed

lemma graph_inv_message:
  assumes "graph_inv regs s" and "one_file_per_owner regs"
    and "\<forall>f\<in>set (message_files env m). (f, key) \<in> set regs"
  shows "graph_inv regs (snd (on_child_message env key m s))"
proof -
  have lists: "graph_inv regs (snd (message_lists env key m s))"
  proof (cases m)
    case MUndefined
    with assms(1) show ?thesis by (simp add: message_lists_def)
  next
    case MNull
    with assms(1) show ?thesis by (simp add: message_lists_def)
  next
    case (MValue req imp)
    let ?a = "(case req of None \<Rightarrow> (None, s) | Some files \<Rightarrow> forEach_require env key files s)"
    obtain r1 s1 where a: "?a = (r1, s1)" by (cases ?a)
    have i1: "graph_inv regs s1"
    proof (cases req)
      case None
      with a assms(1) show ?thesis by auto
    next
      case (Some files)
      with assms(3) MValue have "\<forall>f\<in>set files. (f, key) \<in> set regs" by simp
      from graph_inv_forEach_require [OF assms(1,2) this, of env] a Some show ?thesis by simp
    qed
    let ?b = "(case imp of None \<Rightarrow> (None, s1) | Some urls \<Rightarrow> forEach_import env key urls s1)"
    have i2: "graph_inv regs (snd ?b)"
    proof (cases imp)
      case None
      with i1 show ?thesis by simp
    next
      case (Some urls)
      with assms(3) MValue have "\<forall>f\<in>set (url_paths env urls). (f, key) \<in> set regs" by simp
      from graph_inv_forEach_import [OF i1 assms(2) this] Some show ?thesis by simp
    qed
    from i1 i2 show ?thesis
      by (cases r1) (simp_all add: message_lists_def MValue a)
  qed
  obtain r2 s2 where b: "message_lists env key m s = (r2, s2)" by (cases "message_lists env key m s")
  with lists have "graph_inv regs s2" by simp
  then have "graph_inv regs (s2\<lparr>upstream := upstream s2 @ [WatchRestarted]\<rparr>)"
    by (rule graph_inv_same [rotated 3]) simp_all
  with \<open>graph_inv regs s2\<close> show ?thesis
    by (cases r2) (simp_all add: on_child_message_snd message_try_alt b)
qed

lemma unfilter_dependencies_graph:
  "map_of (depencencyOwners (unfilter_dependencies ds s)) f =
     (if f \<in> set ds then None else map_of (depencencyOwners s) f) \<and>
   ownerDependencies (unfilter_dependencies ds s) = ownerDependencies s \<and>
   dep_sets (unfilter_dependencies ds s) = dep_sets s"
proof (induction ds arbitrary: s)
  case Nil
  show ?case by simp
next
  case (Cons d ds)
  show ?case by (simp add: Cons.IH delete_conv')
qed

lemma graph_inv_unfilter_owner:
  assumes inv: "graph_inv regs s"
  shows "graph_inv regs (unfilter_owner ownr s)"
proof -
  let ?s1 = "(case map_of (ownerDependencies s) ownr of
                None \<Rightarrow> s
              | Some a \<Rightarrow> unfilter_dependencies (deref (dep_sets s) a) s)"
  let ?s' = "unfilter_owner ownr s"
  from inv have wf: "\<And>o' b. map_of (ownerDependencies s) o' = Some b \<Longrightarrow> b < length (dep_sets s)"
    and sym: "\<And>f' o'. o' \<in> set (file_owners s f') \<Longrightarrow>
                f' \<in> set (owner_files s o') \<and> (f', o') \<in> set regs \<and> truthy f' \<and> truthy o'"
    by (auto simp: graph_inv_def)
  have s1: "map_of (depencencyOwners ?s1) f =
              (if f \<in> set (owner_files s ownr) then None else map_of (depencencyOwners s) f)"
    "ownerDependencies ?s1 = ownerDependencies s" "dep_sets ?s1 = dep_sets s" for f
    using unfilter_dependencies_graph [of _ s f]
    by (auto simp: owner_files_def split: option.splits)
  have dO: "map_of (depencencyOwners ?s') f =
              (if f \<in> set (owner_files s ownr) \<or> f = ownr then None
               else map_of (depencencyOwners s) f)" for f
    by (simp add: unfilter_owner_def Let_def delete_conv' s1)
  have oD: "map_of (ownerDependencies ?s') o' =
              (if o' = ownr then None else map_of (ownerDependencies s) o')" for o'
    by (auto simp: unfilter_owner_def Let_def delete_conv' s1)
  have ds: "dep_sets ?s' = dep_sets s"
    by (simp add: unfilter_owner_def Let_def s1)
  have wf': "b < length (dep_sets ?s')" if "map_of (ownerDependencies ?s') o' = Some b" for o' b
    using that wf [of o' b] unfolding oD ds by (simp split: if_splits)
  have sym': "f' \<in> set (owner_files ?s' o') \<and> (f', o') \<in> set regs \<and> truthy f' \<and> truthy o'"
    if mem: "o' \<in> set (file_owners ?s' f')" for f' o'
  proof -
    from mem have nf: "f' \<notin> set (owner_files s ownr)" and o: "o' \<in> set (file_owners s f')"
      unfolding file_owners_def dO by (auto split: if_splits)
    note old = sym [OF o]
    with nf have "o' \<noteq> ownr" by auto
    then have "owner_files ?s' o' = owner_files s o'"
      unfolding owner_files_def oD ds by simp
    with old show ?thesis by simp
  qed
  from wf' sym' show ?thesis unfolding graph_inv_def by blast
qed

lemma graph_inv_unfilter:
  "graph_inv regs s \<Longrightarrow> graph_inv regs (unfilterFilesOwnedBy os s)"
  by (induction os arbitrary: s) (simp_all add: graph_inv_unfilter_owner)

lemma graph_inv_clear: "graph_inv regs (clear s)"
  by (simp add: graph_inv_def clear_def file_owners_def)

lemma graph_inv_step:
  assumes "graph_inv regs s" and "one_file_per_owner regs"
    and "set (registrations env x) \<subseteq> set regs"
  shows "graph_inv regs (step env x s)"
proof (cases x)
  case (WatchPath p r)
  with watchPath_frame [of s env p r] assms(1) show ?thesis
    by (auto intro: graph_inv_same_graph)
next
  case (FilterFile f ownr)
  with assms(3) have "(f, ownr) \<in> set regs" by simp
  from graph_inv_filterFile [OF assms(1,2) this] FilterFile show ?thesis by simp
next
  case (UnfilterFilesOwnedBy os)
  with assms(1) show ?thesis by (simp add: graph_inv_unfilter)
next
  case ClearFileFilters
  with assms(1) show ?thesis
    by (auto simp: clearFileFilters_def intro: graph_inv_same [rotated 3])
next
  case Clear
  then show ?thesis by (simp add: graph_inv_clear)
next
  case (WatchChildProcessModules c key)
  with watchChildProcessModules_quiet [of s c key] assms(1) show ?thesis
    by (auto intro: graph_inv_same_graph)
next
  case (DestroyIPC c)
  with destroyIPC_quiet [of s c] assms(1) show ?thesis
    by (auto intro: graph_inv_same_graph)
next
  case (ChildMessage key m)
  with assms(3) have "\<forall>f\<in>set (message_files env m). (f, key) \<in> set regs" by auto
  from graph_inv_message [OF assms(1,2) this] ChildMessage show ?thesis by simp
next
  case (RawChange t)
  with assms(1) show ?thesis
    by (auto simp: onChange_def intro: graph_inv_same [rotated 3])
next
  case (TimerFires i)
  with assms(1) show ?thesis
    by (auto simp: timer_fires_def intro: graph_inv_same [rotated 3])
next
  case (Tick dt)
  with assms(1) show ?thesis
    by (auto simp: tick_def intro: graph_inv_same [rotated 3])
qed

lemma graph_inv_run:
  "graph_inv regs s \<Longrightarrow> one_file_per_owner regs \<Longrightarrow>
   set (all_registrations env ops) \<subseteq> set regs \<Longrightarrow> graph_inv regs (run env ops s)"
proof (induction ops arbitrary: s)
  case Nil
  then show ?case by simp
next
  case (Cons x ops)
  from Cons.prems(3) have sub: "set (registrations env x) \<subseteq> set regs"
    "set (all_registrations env ops) \<subseteq> set regs"
    by (simp_all add: all_registrations_def)
  from graph_inv_step [OF Cons.prems(1,2) sub(1)]
  have "graph_inv regs (step env x s)" .
  from Cons.IH [OF this Cons.prems(2) sub(2)] show ?case by simp
qed

lemma graph_inv_initial: "graph_inv regs (initial env thr m)"
  by (simp add: graph_inv_def initial_def file_owners_def)

text \<open>Two owners registered with the same file, one file each; after
  \<open>unfilterFilesOwnedBy\<close> of the first, the second still has the file among its
  dependencies, and the file has no owners.\<close>

theorem C1_symmetry_unfilter_counterexample:
  "one_file_per_owner (all_registrations linux
      [FilterFile (JStr ''/a/f.js'') (JStr ''o1''),
       FilterFile (JStr ''/a/f.js'') (JStr ''o2''),
       UnfilterFilesOwnedBy [JStr ''o1'']]) \<and>
   JStr ''/a/f.js'' \<in> set (owner_files shared_file_example (JStr ''o2'')) \<and>
   JStr ''o2'' \<notin> set (file_owners shared_file_example (JStr ''/a/f.js''))"
  by (simp add: shared_file_example_def example_defs method_defs file_owners_def owner_files_def
      all_registrations_def one_file_per_owner_def)

text \<open>
  C1 (amended).  One direction of the symmetry holds, in runs where no owner is
  registered with two different files: after any run of calls and events from the
  constructor, an owner in \<open>FileToOwners[f]\<close> has \<open>f\<close> in its \<open>OwnerToFiles\<close>.
\<close>

theorem C1_owners_have_files:
  assumes "FilesWatcher_new env thr md = Inr s0"
    and "one_file_per_owner (all_registrations env ops)"
    and "ownr \<in> set (file_owners (run env ops s0) f)"
  shows "f \<in> set (owner_files (run env ops s0) ownr)"
proof -
  from assms(1) obtain m where s0: "s0 = initial env (nat thr) m"
    by (auto simp: FilesWatcher_new_def split: if_splits)
  have "graph_inv (all_registrations env ops) (run env ops s0)"
    unfolding s0 by (intro graph_inv_run graph_inv_initial assms(2) subset_refl)
  with assms(3) show ?thesis by (simp add: graph_inv_def)
qed

theorem C1_owners_have_files_witness:
  "FilesWatcher_new darwin 500 ''filter'' = Inr (initial darwin 500 Filter) \<and>
   one_file_per_owner (all_registrations darwin three_owners_ops) \<and>
   JStr ''o3'' \<in> set (file_owners (run darwin three_owners_ops (initial darwin 500 Filter))
                        (JStr ''/a/g.js'')) \<and>
   JStr ''/a/g.js'' \<in> set (owner_files (run darwin three_owners_ops (initial darwin 500 Filter))
                             (JStr ''o3''))"
proof -
  have new: "FilesWatcher_new darwin 500 ''filter'' = Inr (initial darwin 500 Filter)"
    by (simp add: FilesWatcher_new_def darwin_def)
  have one: "one_file_per_owner (all_registrations darwin three_owners_ops)"
    by (simp add: all_registrations_def three_owners_ops_def one_file_per_owner_def)
  have mem: "JStr ''o3'' \<in> set (file_owners (run darwin three_owners_ops (initial darwin 500 Filter))
                        (JStr ''/a/g.js''))"
    by (simp add: three_owners_ops_def example_defs method_defs file_owners_def
        on_child_message_def message_try_def)
  from C1_owners_have_files [OF new one mem] new one mem show ?thesis by simp
qed

end
